theory Spec2Isabelle
  imports Complex_Main "HOL-Library.Multiset"
begin

section \<open>Segments and rings (prism/segment.py, prism/ring.py)\<close>

text \<open>
  A Python \<^verbatim>\<open>Segment\<close> object is a mutable cell with an identity. The model keeps the
  objects in a store indexed by their identity (a natural number); \<^verbatim>\<open>seg in list\<close>,
  \<^verbatim>\<open>list.remove(seg)\<close> compare by identity, because \<^verbatim>\<open>Segment\<close> defines no
  \<^verbatim>\<open>__eq__\<close>. A segment holds its two end points and the identities of its
  neighbours. The type of points is a parameter: neither \<^verbatim>\<open>Segment\<close>'s accessors nor
  \<^verbatim>\<open>Ring\<close> ever look inside a point.
\<close>

datatype error = IndexError | AttributeError

record 'p segment =
  sp :: 'p
  ep :: 'p
  prev_seg :: nat
  next_seg :: nat

type_synonym 'p store = "nat \<Rightarrow> 'p segment"

text \<open>The property setters of \<^verbatim>\<open>Segment\<close>, as updates of the store at one object.\<close>

definition set_sp :: "'p store \<Rightarrow> nat \<Rightarrow> 'p \<Rightarrow> 'p store" where
  "set_sp h a p = h(a := (h a)\<lparr>sp := p\<rparr>)"

definition set_ep :: "'p store \<Rightarrow> nat \<Rightarrow> 'p \<Rightarrow> 'p store" where
  "set_ep h a p = h(a := (h a)\<lparr>ep := p\<rparr>)"

definition set_next_seg :: "'p store \<Rightarrow> nat \<Rightarrow> nat \<Rightarrow> 'p store" where
  "set_next_seg h a b = h(a := (h a)\<lparr>next_seg := b\<rparr>)"

definition set_prev_seg :: "'p store \<Rightarrow> nat \<Rightarrow> nat \<Rightarrow> 'p store" where
  "set_prev_seg h a b = h(a := (h a)\<lparr>prev_seg := b\<rparr>)"

text \<open>
  A \<^verbatim>\<open>Ring\<close> is the list \<^verbatim>\<open>_segments\<close> of segment identities together with the store
  the segments live in.
\<close>

record 'p ring =
  heap :: "'p store"
  segments :: "nat list"

text \<open>
  \<^verbatim>\<open>Ring.__init__\<close>: one segment for each pair of consecutive coordinates (segment
  \<open>i\<close> is the \<open>i\<close>-th object created), every segment but the last linked to
  \<^verbatim>\<open>_segments[i - 1]\<close> (the last one for \<open>i = 0\<close>, Python's index \<open>-1\<close>) and to
  \<^verbatim>\<open>_segments[i + 1]\<close>, the last one to \<^verbatim>\<open>_segments[-2]\<close> and \<^verbatim>\<open>_segments[0]\<close>.
  With fewer than two segments \<^verbatim>\<open>_segments[-1]\<close> or \<^verbatim>\<open>_segments[-2]\<close> raises
  \<^verbatim>\<open>IndexError\<close>. \<open>Ring_links\<close> is the store that the two linking loops leave.
\<close>

definition Ring_links :: "'p list \<Rightarrow> 'p store" where
  "Ring_links coordinates =
     (let m = length coordinates - 1
      in (\<lambda>i. \<lparr>sp = coordinates ! i, ep = coordinates ! (i + 1),
                 prev_seg = (if i < m - 1 then (if i = 0 then m - 1 else i - 1) else m - 2),
                 next_seg = (if i < m - 1 then i + 1 else 0)\<rparr>))"

definition Ring_init :: "'p list \<Rightarrow> error + 'p ring" where
  "Ring_init coordinates =
     (let m = length coordinates - 1
      in if m < 2 then Inl IndexError
         else Inr \<lparr>heap = Ring_links coordinates, segments = [0..<m]\<rparr>)"

text \<open>
  The three structural edits. Each statement of the source reads the store as the
  statements before it left it.
\<close>

definition Ring_merge :: "('p, 'z) ring_scheme \<Rightarrow> nat \<Rightarrow> ('p, 'z) ring_scheme" where
  "Ring_merge r seg =
     (if seg \<in> set (segments r) then
        let h0 = heap r;
            h1 = set_next_seg h0 (prev_seg (h0 seg)) (next_seg (h0 seg));
            h2 = set_prev_seg h1 (next_seg (h1 seg)) (prev_seg (h1 seg));
            h3 = set_sp h2 (next_seg (h2 seg)) (ep (h2 (prev_seg (h2 seg))))
        in r\<lparr>heap := h3, segments := remove1 seg (segments r)\<rparr>
      else r)"

definition Ring_update ::
  "('p, 'z) ring_scheme \<Rightarrow> nat \<Rightarrow> 'p \<Rightarrow> 'p \<Rightarrow> ('p, 'z) ring_scheme \<times> nat option" where
  "Ring_update r seg p q =
     (if seg \<in> set (segments r) then
        let h0 = heap r;
            h1 = set_sp h0 seg p;
            h2 = set_ep h1 seg q;
            h3 = set_ep h2 (prev_seg (h2 seg)) (sp (h2 seg));
            h4 = set_sp h3 (next_seg (h3 seg)) (ep (h3 seg))
        in (r\<lparr>heap := h4\<rparr>, Some seg)
      else (r, None))"

definition Ring_remove :: "('p, 'z) ring_scheme \<Rightarrow> nat \<Rightarrow> 'p \<Rightarrow> ('p, 'z) ring_scheme" where
  "Ring_remove r seg q =
     (if seg \<in> set (segments r) then
        let h0 = heap r;
            h1 = set_next_seg h0 (prev_seg (h0 seg)) (next_seg (h0 seg));
            h2 = set_prev_seg h1 (next_seg (h1 seg)) (prev_seg (h1 seg));
            h3 = set_ep h2 (prev_seg (h2 seg)) q;
            h4 = set_sp h3 (next_seg (h3 seg)) q
        in r\<lparr>heap := h4, segments := remove1 seg (segments r)\<rparr>
      else r)"

text \<open>
  \<^verbatim>\<open>Ring.coordinates\<close>: the start point of every segment, then the end point of
  \<^verbatim>\<open>segments[-1]\<close>, which raises \<^verbatim>\<open>IndexError\<close> on an empty list.
\<close>

definition Ring_coordinates :: "('p, 'z) ring_scheme \<Rightarrow> error + 'p list" where
  "Ring_coordinates r =
     (if segments r = [] then Inl IndexError
      else Inr (map (\<lambda>s. sp (heap r s)) (segments r) @ [ep (heap r (last (segments r)))]))"


section \<open>Plane geometry (prism/segment.py and the geometry helpers of simplify\_ring)\<close>

text \<open>
  The engine works on points of the plane. Python's floating-point coordinates are
  idealised as real numbers: rounding, infinities and NaN are outside the model, with one
  exception. \<^verbatim>\<open>Segment.angle\<close> divides by the product of two lengths, and numpy
  evaluates \<open>0.0 / 0.0\<close> to NaN (with a warning, not an exception); every comparison
  with NaN is false, and the dispatch of the main loop depends on that. So \<open>angle\<close>
  returns \<open>None\<close> where the code computes NaN.
\<close>

type_synonym point = "real \<times> real"

definition vsub :: "point \<Rightarrow> point \<Rightarrow> point" where
  "vsub a b = (fst a - fst b, snd a - snd b)"

definition vdot :: "point \<Rightarrow> point \<Rightarrow> real" where
  "vdot a b = fst a * fst b + snd a * snd b"

definition vnorm :: "point \<Rightarrow> real" where
  "vnorm a = sqrt ((fst a)\<^sup>2 + (snd a)\<^sup>2)"

definition arctan2 :: "real \<Rightarrow> real \<Rightarrow> real" where
  "arctan2 y x =
     (if 0 < x then arctan (y / x)
      else if x < 0 then (if 0 \<le> y then arctan (y / x) + pi else arctan (y / x) - pi)
      else if 0 < y then pi / 2 else if y < 0 then - (pi / 2) else 0)"

definition seg_length :: "point store \<Rightarrow> nat \<Rightarrow> real" where
  "seg_length h s = vnorm (vsub (sp (h s)) (ep (h s)))"

definition angle :: "point store \<Rightarrow> nat \<Rightarrow> real option" where
  "angle h s =
     (let a = sp (h s); b = ep (h s); c = ep (h (next_seg (h s)));
          ba = vsub a b; bc = vsub c b
      in if vnorm ba * vnorm bc = 0 then None
         else Some (arccos (max (- 1) (min 1 (vdot ba bc / (vnorm ba * vnorm bc))))))"

definition slope_as_angle :: "point store \<Rightarrow> nat \<Rightarrow> real" where
  "slope_as_angle h s =
     (let b = sp (h s); c = ep (h s); d = arctan2 (snd c - snd b) (fst c - fst b)
      in if d < 0 then pi * 2 + d else d)"

text \<open>
  The three shapely calls of the engine, on a \<^verbatim>\<open>LineString\<close> of two points: its
  length, the point at a fraction of its length (the engine passes fractions between 0
  and 1 only), and the distance from a point to the line string, which is the distance
  to the nearest point of the closed segment. shapely is a library outside the
  repository; these are its documented meanings.
\<close>

definition LineString_length :: "point \<Rightarrow> point \<Rightarrow> real" where
  "LineString_length a b = vnorm (vsub b a)"

definition LineString_interpolate :: "point \<Rightarrow> point \<Rightarrow> real \<Rightarrow> point" where
  "LineString_interpolate a b ratio =
     (let t = max 0 (min 1 ratio)
      in (fst a + t * (fst b - fst a), snd a + t * (snd b - snd a)))"

definition LineString_distance :: "point \<Rightarrow> point \<Rightarrow> point \<Rightarrow> real" where
  "LineString_distance a b q =
     (if a = b then vnorm (vsub q a)
      else let t = max 0 (min 1 (vdot (vsub q a) (vsub b a) / (vnorm (vsub b a))\<^sup>2))
           in vnorm (vsub q (fst a + t * (fst b - fst a), snd a + t * (snd b - snd a))))"

text \<open>
  \<^verbatim>\<open>project\<close>: the branch \<^verbatim>\<open>isinf(tan)\<close> of the source has no counterpart, since no
  real number is infinite (and \<^verbatim>\<open>math.tan\<close> returns no infinity on a finite float).
\<close>

definition project :: "real \<Rightarrow> real \<Rightarrow> real \<Rightarrow> real \<Rightarrow> real \<Rightarrow> point" where
  "project px py x y tn =
     (if tn = 0 then (px, y)
      else let cot = 1 / tn
           in ((px + tn * tn * x + tn * (py - y)) / (1 + tn * tn),
               (py + cot * cot * y + cot * (px - x)) / (1 + cot * cot)))"

definition intersection2 :: "point store \<Rightarrow> nat \<Rightarrow> real \<Rightarrow> real \<Rightarrow> real \<Rightarrow> point option" where
  "intersection2 h seg x y tn =
     (let s1 = sp (h seg); e1 = ep (h seg); s2 = (x, y); e2 = (x + 1, y + tn);
          a1 = snd e1 - snd s1; b1 = fst s1 - fst e1; c1 = a1 * fst s1 + b1 * snd s1;
          a2 = snd e2 - snd s2; b2 = fst s2 - fst e2; c2 = a2 * fst s2 + b2 * snd s2;
          dt = a1 * b2 - a2 * b1
      in if dt = 0 then None
         else Some ((b2 * c1 - b1 * c2) / dt, (a1 * c2 - a2 * c1) / dt))"

definition intersection :: "point store \<Rightarrow> nat \<Rightarrow> nat \<Rightarrow> point option" where
  "intersection h a b =
     (let asp = sp (h a); aep = ep (h a); bsp = sp (h b); bep = ep (h b);
          t = (fst asp - fst aep) * (snd bsp - snd bep) - (snd asp - snd aep) * (fst bsp - fst bep);
          x = (fst asp * snd aep - snd asp * fst aep) * (fst bsp - fst bep)
              - (fst asp - fst aep) * (fst bsp * snd bep - snd bsp * fst bep);
          y = (fst asp * snd aep - snd asp * fst aep) * (snd bsp - snd bep)
              - (snd asp - snd aep) * (fst bsp * snd bep - snd bsp * fst bep)
      in if t = 0 then None else Some (x / t, y / t))"

section \<open>The priority queue (Python's heapq on a list of segments)\<close>

text \<open>
  The queue is a Python list kept in heap order by \<^verbatim>\<open>heapq\<close>, which compares
  elements with \<^verbatim>\<open>Segment.__lt__\<close>: by their current lengths. The functions below
  follow the pure-Python text of \<^verbatim>\<open>heapq\<close> (\<^verbatim>\<open>_siftdown\<close>, \<^verbatim>\<open>_siftup\<close>,
  \<^verbatim>\<open>heappush\<close>, \<^verbatim>\<open>heappop\<close>, \<^verbatim>\<open>heapify\<close>); the comparison is a parameter.
\<close>

function siftdown_loop :: "('a \<Rightarrow> 'a \<Rightarrow> bool) \<Rightarrow> 'a list \<Rightarrow> nat \<Rightarrow> nat \<Rightarrow> 'a \<Rightarrow> 'a list" where
  "siftdown_loop lt hp startpos pos newitem =
     (if startpos < pos then
        let parentpos = (pos - 1) div 2; parent = hp ! parentpos
        in if lt newitem parent then siftdown_loop lt (hp[pos := parent]) startpos parentpos newitem
           else hp[pos := newitem]
      else hp[pos := newitem])"
  by pat_completeness auto
termination
  by (relation "measure (\<lambda>(lt, hp, startpos, pos, newitem). pos)") auto

definition siftdown :: "('a \<Rightarrow> 'a \<Rightarrow> bool) \<Rightarrow> 'a list \<Rightarrow> nat \<Rightarrow> nat \<Rightarrow> 'a list" where
  "siftdown lt hp startpos pos = siftdown_loop lt hp startpos pos (hp ! pos)"

function siftup_loop :: "('a \<Rightarrow> 'a \<Rightarrow> bool) \<Rightarrow> 'a list \<Rightarrow> nat \<Rightarrow> 'a list \<times> nat" where
  "siftup_loop lt hp pos =
     (let childpos = 2 * pos + 1
      in if childpos < length hp then
           let rightpos = childpos + 1;
               childpos = (if rightpos < length hp \<and> \<not> lt (hp ! childpos) (hp ! rightpos)
                           then rightpos else childpos)
           in siftup_loop lt (hp[pos := hp ! childpos]) childpos
         else (hp, pos))"
  by pat_completeness auto
termination
  by (relation "measure (\<lambda>(lt, hp, pos). length hp - pos)") (auto split: if_splits)

definition siftup :: "('a \<Rightarrow> 'a \<Rightarrow> bool) \<Rightarrow> 'a list \<Rightarrow> nat \<Rightarrow> 'a list" where
  "siftup lt hp pos =
     (let newitem = hp ! pos; (hp', pos') = siftup_loop lt hp pos
      in siftdown lt (hp'[pos' := newitem]) pos pos')"

definition heappush :: "('a \<Rightarrow> 'a \<Rightarrow> bool) \<Rightarrow> 'a list \<Rightarrow> 'a \<Rightarrow> 'a list" where
  "heappush lt hp item = siftdown lt (hp @ [item]) 0 (length hp)"

definition heappop :: "('a \<Rightarrow> 'a \<Rightarrow> bool) \<Rightarrow> 'a list \<Rightarrow> error + 'a \<times> 'a list" where
  "heappop lt hp =
     (if hp = [] then Inl IndexError
      else let lastelt = last hp; hp' = butlast hp
           in if hp' \<noteq> [] then Inr (hp' ! 0, siftup lt (hp'[0 := lastelt]) 0)
              else Inr (lastelt, hp'))"

definition heapify :: "('a \<Rightarrow> 'a \<Rightarrow> bool) \<Rightarrow> 'a list \<Rightarrow> 'a list" where
  "heapify lt x = fold (\<lambda>i x. siftup lt x i) (rev [0..<length x div 2]) x"


section \<open>The simplification engine (prism/simplify.py)\<close>

record params =
  tau :: real
  epsilon :: real
  delta :: real
  gamma :: "real option"
  merge_first :: bool

text \<open>The state of one run of \<^verbatim>\<open>simplify_ring\<close>: the ring and the queue.\<close>

record 'p state = "'p ring" +
  queue :: "nat list"

definition seg_lt :: "point store \<Rightarrow> nat \<Rightarrow> nat \<Rightarrow> bool" where
  "seg_lt h a b \<longleftrightarrow> seg_length h a < seg_length h b"

text \<open>
  \<^verbatim>\<open>remove_from_queue\<close>: \<^verbatim>\<open>queue.remove\<close> raises \<^verbatim>\<open>ValueError\<close> when the segment is
  not queued and the handler passes; \<^verbatim>\<open>heapify\<close> runs only after a removal.
\<close>

definition remove_from_queue :: "point state \<Rightarrow> nat \<Rightarrow> point state" where
  "remove_from_queue st seg =
     (if seg \<in> set (queue st)
      then st\<lparr>queue := heapify (seg_lt (heap st)) (remove1 seg (queue st))\<rparr>
      else st)"

definition enqueue :: "point state \<Rightarrow> nat \<Rightarrow> point state" where
  "enqueue st seg =
     (if seg \<in> set (queue st) then st
      else st\<lparr>queue := heappush (seg_lt (heap st)) (queue st) seg\<rparr>)"

definition remove_middle_point :: "point state \<Rightarrow> nat \<Rightarrow> point state" where
  "remove_middle_point st seg =
     (let st1 = remove_from_queue st (next_seg (heap st seg));
          st2 = Ring_merge st1 seg
      in enqueue st2 (next_seg (heap st2 seg)))"

text \<open>
  \<^verbatim>\<open>segment_regression\<close>. Its geometric part (lines 200 to 227 of the source) computes
  the two end points of the regressed segment: \<open>regression_ends\<close>. \<^verbatim>\<open>ring.update\<close>
  returns \<^verbatim>\<open>None\<close> for a segment that is not in the ring, and the next statement reads
  \<^verbatim>\<open>seg.prev_seg\<close> of that result.
\<close>

definition regression_ends :: "point store \<Rightarrow> nat \<Rightarrow> point \<times> point" where
  "regression_ends h seg =
     (let prv = prev_seg (h seg); nxt = next_seg (h seg);
          ratio = seg_length h prv / (seg_length h prv + seg_length h nxt);
          p = LineString_interpolate (sp (h seg)) (ep (h seg)) ratio;
          a1 = slope_as_angle h prv;
          a2 = slope_as_angle h nxt;
          a2' = (if \<bar>a1 - a2\<bar> > pi \<and> a1 > a2 then a2 + pi * 2 else a2);
          a1' = (if \<bar>a1 - a2\<bar> > pi \<and> \<not> a1 > a2 then a1 + pi * 2 else a1);
          ang = a1' * ratio + a2' * (1 - ratio);
          ang = (if ang \<le> 2 * pi then ang else ang - 2 * pi);
          theta = tan ang;
          prev2 = prev_seg (h prv);
          next2 = next_seg (h nxt);
          q1 = (case intersection2 h prev2 (fst p) (snd p) theta of
                  None \<Rightarrow> project (fst (sp (h prv))) (snd (sp (h prv))) (fst p) (snd p) theta
                | Some q \<Rightarrow>
                    if LineString_distance (sp (h prev2)) (ep (h prev2)) q > seg_length h seg
                    then project (fst (sp (h prv))) (snd (sp (h prv))) (fst p) (snd p) theta
                    else q);
          q2 = (case intersection2 h next2 (fst p) (snd p) theta of
                  None \<Rightarrow> project (fst (ep (h nxt))) (snd (ep (h nxt))) (fst p) (snd p) theta
                | Some q \<Rightarrow>
                    if LineString_distance (sp (h next2)) (ep (h next2)) q > seg_length h seg
                    then project (fst (ep (h nxt))) (snd (ep (h nxt))) (fst p) (snd p) theta
                    else q)
      in (q1, q2))"

definition segment_regression :: "point state \<Rightarrow> nat \<Rightarrow> error + point state" where
  "segment_regression st seg =
     (let st1 = remove_from_queue st (prev_seg (heap st seg));
          st2 = remove_from_queue st1 (next_seg (heap st1 seg));
          (q1, q2) = regression_ends (heap st2) seg;
          (st3, r) = Ring_update st2 seg q1 q2
      in case r of
           None \<Rightarrow> Inl AttributeError
         | Some seg' \<Rightarrow>
             let st4 = enqueue st3 (prev_seg (heap st3 seg'));
                 st5 = enqueue st4 seg'
             in Inr (enqueue st5 (next_seg (heap st5 seg'))))"

definition conditional_segment_regression ::
  "params \<Rightarrow> point state \<Rightarrow> nat \<Rightarrow> error + point state" where
  "conditional_segment_regression P st seg =
     (let h = heap st; prv = prev_seg (h seg); nxt = next_seg (h seg)
      in if merge_first P \<and> seg_length h prv < tau P \<and> seg_length h nxt < tau P
            \<and> seg_length h prv < seg_length h nxt
            \<and> LineString_length (sp (h prv)) (sp (h nxt)) < tau P
         then let st1 = remove_from_queue st prv
              in Inr (remove_middle_point st1 (prev_seg (heap st1 seg)))
         else if merge_first P \<and> seg_length h prv < tau P \<and> seg_length h nxt < tau P
            \<and> \<not> seg_length h prv < seg_length h nxt
            \<and> LineString_length (ep (h prv)) (ep (h nxt)) < tau P
         then Inr (remove_middle_point st seg)
         else segment_regression st seg)"

definition join_segment :: "point state \<Rightarrow> nat \<Rightarrow> point \<Rightarrow> point state" where
  "join_segment st seg p =
     (let st1 = remove_from_queue st (prev_seg (heap st seg));
          st2 = remove_from_queue st1 (next_seg (heap st1 seg));
          st3 = Ring_remove st2 seg p;
          st4 = enqueue st3 (prev_seg (heap st3 seg))
      in enqueue st4 (next_seg (heap st4 seg)))"

text \<open>
  \<^verbatim>\<open>translate_segment\<close>. Its three branches are written as three functions of the state
  in which both neighbours have left the queue: the previous segment is shorter
  (\<open>translate_prev\<close>), the next one is shorter (\<open>translate_next\<close>), both have the same
  length (\<open>translate_both\<close>).
\<close>

definition translate_prev :: "point state \<Rightarrow> nat \<Rightarrow> point state" where
  "translate_prev st2 seg =
     (let h = heap st2;
          prv = prev_seg (h seg);
          p = (fst (ep (h seg)) - (fst (ep (h prv)) - fst (sp (h prv))),
               snd (ep (h seg)) - (snd (ep (h prv)) - snd (sp (h prv))));
          st3 = fst (Ring_update st2 seg (sp (h prv)) p);
          h3 = heap st3;
          st4 = fst (Ring_update st3 (next_seg (h3 seg)) p (ep (h3 (next_seg (h3 seg)))));
          h4 = heap st4;
          st5 = Ring_remove st4 (prev_seg (h4 seg)) (sp (h4 seg));
          st6 = enqueue st5 seg
      in enqueue st6 (next_seg (heap st6 seg)))"

definition translate_next :: "point state \<Rightarrow> nat \<Rightarrow> point state" where
  "translate_next st2 seg =
     (let h = heap st2;
          nxt = next_seg (h seg);
          p = (fst (sp (h seg)) + (fst (ep (h nxt)) - fst (sp (h nxt))),
               snd (sp (h seg)) + (snd (ep (h nxt)) - snd (sp (h nxt))));
          st3 = fst (Ring_update st2 (prev_seg (h seg)) (sp (h (prev_seg (h seg)))) p);
          h3 = heap st3;
          st4 = fst (Ring_update st3 seg p (ep (h3 (next_seg (h3 seg)))));
          h4 = heap st4;
          st5 = Ring_remove st4 (next_seg (h4 seg)) (ep (h4 seg));
          st6 = enqueue st5 seg
      in enqueue st6 (prev_seg (heap st6 seg)))"

definition translate_both :: "point state \<Rightarrow> nat \<Rightarrow> point state" where
  "translate_both st2 seg =
     (let h = heap st2;
          st3 = fst (Ring_update st2 seg (sp (h (prev_seg (h seg)))) (ep (h (next_seg (h seg)))));
          h3 = heap st3;
          st4 = Ring_remove st3 (next_seg (h3 seg)) (ep (h3 seg));
          h4 = heap st4;
          st5 = Ring_remove st4 (prev_seg (h4 seg)) (sp (h4 seg))
      in enqueue st5 seg)"

definition translate_segment :: "point state \<Rightarrow> nat \<Rightarrow> point state" where
  "translate_segment st seg =
     (let st1 = remove_from_queue st (prev_seg (heap st seg));
          st2 = remove_from_queue st1 (next_seg (heap st1 seg));
          h = heap st2;
          prev_length = seg_length h (prev_seg (h seg));
          next_length = seg_length h (next_seg (h seg))
      in if prev_length < next_length then translate_prev st2 seg
         else if prev_length > next_length then translate_next st2 seg
         else translate_both st2 seg)"

text \<open>
  The last branch of the dispatch (lines 316 to 326 of the source, written inline
  there): join the neighbours of \<open>s\<close> at the intersection of their lines, or merge
  \<open>s\<close> with the shorter neighbour.
\<close>

definition join_or_prune :: "params \<Rightarrow> point state \<Rightarrow> nat \<Rightarrow> point state" where
  "join_or_prune P st s =
     (let h = heap st;
          q = intersection h (prev_seg (h s)) (next_seg (h s));
          g = (case gamma P of None \<Rightarrow> seg_length h s | Some g \<Rightarrow> g);
          g = min g (tau P)
      in case (case q of None \<Rightarrow> None
                 | Some q' \<Rightarrow> if LineString_distance (sp (h s)) (ep (h s)) q' \<le> g
                              then Some q' else None) of
           Some q' \<Rightarrow> join_segment st s q'
         | None \<Rightarrow>
             if seg_length h (prev_seg (h s)) < seg_length h (next_seg (h s)) then
               let st1 = remove_from_queue st (prev_seg (h s))
               in remove_middle_point st1 (prev_seg (heap st1 s))
             else remove_middle_point st s)"

definition collinear :: "params \<Rightarrow> point store \<Rightarrow> nat \<Rightarrow> bool" where
  "collinear P h s =
     (case angle h s of None \<Rightarrow> False | Some a \<Rightarrow> pi - delta P < a \<and> a < pi + delta P)"

definition alpha_of :: "point store \<Rightarrow> nat \<Rightarrow> real" where
  "alpha_of h s =
     (let a1 = slope_as_angle h (prev_seg (h s));
          a2 = slope_as_angle h (next_seg (h s));
          (a1, a2) = (if \<bar>a1 - a2\<bar> > pi
                      then (if a1 > a2 then (a1, a2 + pi * 2) else (a1 + pi * 2, a2))
                      else (a1, a2));
          alpha = \<bar>a1 - a2\<bar>
      in min alpha \<bar>alpha - pi * 2\<bar>)"

text \<open>What the loop does with the segment it has popped.\<close>

definition dispatch :: "params \<Rightarrow> point state \<Rightarrow> nat \<Rightarrow> error + point state" where
  "dispatch P st s =
     (let h = heap st
      in if collinear P h s then Inr (remove_middle_point st s)
         else if seg_length h s \<le> tau P then
           let alpha = alpha_of h s
           in if 0 \<le> alpha \<and> alpha \<le> epsilon P then conditional_segment_regression P st s
              else if pi - alpha \<le> epsilon P then Inr (translate_segment st s)
              else Inr (join_or_prune P st s)
         else Inr st)"

definition loop_cond :: "point state \<Rightarrow> bool" where
  "loop_cond st \<longleftrightarrow> length (queue st) > 0 \<and> length (segments st) \<ge> 3"

definition loop_body :: "params \<Rightarrow> point state \<Rightarrow> error + point state" where
  "loop_body P st =
     (case heappop (seg_lt (heap st)) (queue st) of
        Inl e \<Rightarrow> Inl e
      | Inr (s, q) \<Rightarrow> dispatch P (st\<lparr>queue := q\<rparr>) s)"

text \<open>
  The \<^verbatim>\<open>while\<close> loop, with a bound on the number of iterations: \<open>None\<close> says that the
  loop has not ended within \<open>n\<close> iterations, \<open>Some (Inl e)\<close> that it raised \<open>e\<close>,
  \<open>Some (Inr st)\<close> that it ended in the state \<open>st\<close>.
\<close>

fun simplify_loop :: "params \<Rightarrow> nat \<Rightarrow> point state \<Rightarrow> (error + point state) option" where
  "simplify_loop P 0 st = (if loop_cond st then None else Some (Inr st))"
| "simplify_loop P (Suc n) st =
     (if loop_cond st then
        (case loop_body P st of Inl e \<Rightarrow> Some (Inl e) | Inr st' \<Rightarrow> simplify_loop P n st')
      else Some (Inr st))"

text \<open>
  The state before the loop: the ring built from a copy of the coordinates, every
  segment enqueued in the order of \<^verbatim>\<open>_segments\<close>.
\<close>

definition init_state :: "point list \<Rightarrow> error + point state" where
  "init_state coords =
     (let coordinates = map (\<lambda>(x, y). (x, y)) coords
      in case Ring_init coordinates of
           Inl e \<Rightarrow> Inl e
         | Inr ring \<Rightarrow>
             Inr (fold (\<lambda>seg st. enqueue st seg) (segments ring)
                    \<lparr>heap = heap ring, segments = segments ring, queue = []\<rparr>))"

text \<open>
  \<^verbatim>\<open>simplify_ring\<close>: the result is Python's \<^verbatim>\<open>None\<close> (here \<open>Inr None\<close>) or the
  coordinate list handed to shapely's \<^verbatim>\<open>LinearRing\<close>.
\<close>

definition simplify_ring :: "params \<Rightarrow> nat \<Rightarrow> point list \<Rightarrow> (error + point list option) option" where
  "simplify_ring P fuel linear_ring =
     (case init_state linear_ring of
        Inl e \<Rightarrow> Some (Inl e)
      | Inr st \<Rightarrow>
          (case simplify_loop P fuel st of
             None \<Rightarrow> None
           | Some (Inl e) \<Rightarrow> Some (Inl e)
           | Some (Inr st') \<Rightarrow>
               (case Ring_coordinates st' of
                  Inl e \<Rightarrow> Some (Inl e)
                | Inr cs \<Rightarrow> if length cs < 3 then Some (Inr None) else Some (Inr (Some cs)))))"

text \<open>
  \<^verbatim>\<open>simplify\<close>: a polygon is its exterior ring and its list of interior rings. The
  result is \<^verbatim>\<open>None\<close> or the two arguments handed to shapely's \<^verbatim>\<open>Polygon\<close>: the
  simplified exterior and the list \<^verbatim>\<open>interiors\<close>, which holds the result of
  \<^verbatim>\<open>simplify_ring\<close> for every interior ring.
\<close>

record polygon =
  exterior :: "point list"
  interiors :: "point list list"

record polygon_args =
  shell :: "point list"
  holes :: "point list option list"

fun simplify_interiors ::
  "params \<Rightarrow> nat \<Rightarrow> point list list \<Rightarrow> (error + point list option list) option" where
  "simplify_interiors P fuel [] = Some (Inr [])"
| "simplify_interiors P fuel (ring # rings) =
     (case simplify_ring P fuel ring of
        None \<Rightarrow> None
      | Some (Inl e) \<Rightarrow> Some (Inl e)
      | Some (Inr r) \<Rightarrow>
          (case simplify_interiors P fuel rings of
             None \<Rightarrow> None
           | Some (Inl e) \<Rightarrow> Some (Inl e)
           | Some (Inr rs) \<Rightarrow> Some (Inr (r # rs))))"

definition simplify :: "params \<Rightarrow> nat \<Rightarrow> polygon \<Rightarrow> (error + polygon_args option) option" where
  "simplify P fuel polygon =
     (case simplify_ring P fuel (exterior polygon) of
        None \<Rightarrow> None
      | Some (Inl e) \<Rightarrow> Some (Inl e)
      | Some (Inr ext) \<Rightarrow>
          (case simplify_interiors P fuel (interiors polygon) of
             None \<Rightarrow> None
           | Some (Inl e) \<Rightarrow> Some (Inl e)
           | Some (Inr ints) \<Rightarrow>
               (case ext of
                  None \<Rightarrow> Some (Inr None)
                | Some e \<Rightarrow> Some (Inr (Some \<lparr>shell = e, holes = ints\<rparr>)))))"

section \<open>Invariants of the ring, the heap and the engine\<close>

text \<open>
  Two segments are linked when the first points forward to the second, the second points
  back to the first, and the first ends where the second starts. A list of segments is a
  chain towards \<open>b\<close> when each element is linked to the one after it and the last one
  to \<open>b\<close>. The ring invariant: \<^verbatim>\<open>_segments\<close> holds no segment twice and is a chain
  towards its own first element, so the segments form one cycle in the order of the list.
\<close>

definition link :: "'p store \<Rightarrow> nat \<Rightarrow> nat \<Rightarrow> bool" where
  "link h a b \<longleftrightarrow> next_seg (h a) = b \<and> prev_seg (h b) = a \<and> ep (h a) = sp (h b)"

fun chain :: "'p store \<Rightarrow> nat list \<Rightarrow> nat \<Rightarrow> bool" where
  "chain h [] b = True"
| "chain h [x] b = link h x b"
| "chain h (x # y # ys) b = (link h x y \<and> chain h (y # ys) b)"

definition ring_inv :: "('p, 'z) ring_scheme \<Rightarrow> bool" where
  "ring_inv r \<longleftrightarrow> distinct (segments r) \<and> chain (heap r) (segments r) (hd (segments r))"

text \<open>The segments met by following \<^verbatim>\<open>next_seg\<close> from \<open>s\<close> for \<open>n\<close> steps.\<close>

fun trace :: "'p store \<Rightarrow> nat \<Rightarrow> nat \<Rightarrow> nat list" where
  "trace h s 0 = []"
| "trace h s (Suc n) = s # trace h (next_seg (h s)) n"

text \<open>
  The heap order of \<^verbatim>\<open>heapq\<close> on a list: no element is smaller than its parent, the
  parent of index \<open>i\<close> being index \<open>(i - 1) div 2\<close>. \<open>heap_from key k\<close> asks this of
  the parents from index \<open>k\<close> on, and \<open>below k p\<close> says that \<open>p\<close> lies in the subtree
  of \<open>k\<close>; both serve the proofs about \<^verbatim>\<open>_siftup\<close> and \<^verbatim>\<open>_siftdown\<close>.
\<close>

definition is_heap :: "('a \<Rightarrow> 'k::linorder) \<Rightarrow> 'a list \<Rightarrow> bool" where
  "is_heap key xs \<longleftrightarrow> (\<forall>i\<in>{1..<length xs}. key (xs ! ((i - 1) div 2)) \<le> key (xs ! i))"

definition heap_from :: "('a \<Rightarrow> 'k::linorder) \<Rightarrow> nat \<Rightarrow> 'a list \<Rightarrow> bool" where
  "heap_from key k xs \<longleftrightarrow>
     (\<forall>i. 0 < i \<and> i < length xs \<and> k \<le> (i - 1) div 2 \<longrightarrow> key (xs ! ((i - 1) div 2)) \<le> key (xs ! i))"

inductive below :: "nat \<Rightarrow> nat \<Rightarrow> bool" for k where
  below_refl: "below k k"
| below_child: "below k ((c - 1) div 2) \<Longrightarrow> 0 < c \<Longrightarrow> below k c"

text \<open>
  The invariant of the engine between two iterations of the loop: the ring invariant, no
  segment queued twice, only segments of the ring queued, and the queue in heap order
  under the current lengths.
\<close>

definition engine_inv :: "point state \<Rightarrow> bool" where
  "engine_inv st \<longleftrightarrow>
     ring_inv st \<and> distinct (queue st) \<and> set (queue st) \<subseteq> set (segments st)
     \<and> is_heap (seg_length (heap st)) (queue st)"

text \<open>
  The state in which an operator starts: \<open>s\<close> has been popped, so it is in the ring and
  not in the queue, and the guard of the loop has held, so the ring has three segments.
\<close>

definition popped :: "point state \<Rightarrow> nat \<Rightarrow> bool" where
  "popped st s \<longleftrightarrow>
     engine_inv st \<and> s \<in> set (segments st) \<and> s \<notin> set (queue st) \<and> 3 \<le> length (segments st)"

text \<open>
  What every operator but segment-regression does to the state: the ring loses a segment,
  and twice the segment count plus the queue length does not grow.
\<close>

definition shrinks :: "point state \<Rightarrow> point state \<Rightarrow> bool" where
  "shrinks st st' \<longleftrightarrow>
     engine_inv st' \<and> segments st' \<noteq> [] \<and> set (segments st') \<subseteq> set (segments st)
     \<and> length (segments st') < length (segments st)
     \<and> 2 * length (segments st') + length (queue st') \<le> 2 * length (segments st) + length (queue st)"

text \<open>The dispatch sends \<open>s\<close> to \<^verbatim>\<open>segment_regression\<close>.\<close>

definition regresses :: "params \<Rightarrow> point state \<Rightarrow> nat \<Rightarrow> bool" where
  "regresses P st s \<longleftrightarrow>
     (let h = heap st; prv = prev_seg (h s); nxt = next_seg (h s)
      in \<not> collinear P h s \<and> seg_length h s \<le> tau P
         \<and> 0 \<le> alpha_of h s \<and> alpha_of h s \<le> epsilon P
         \<and> \<not> (merge_first P \<and> seg_length h prv < tau P \<and> seg_length h nxt < tau P
               \<and> (if seg_length h prv < seg_length h nxt
                   then LineString_length (sp (h prv)) (sp (h nxt)) < tau P
                   else LineString_length (ep (h prv)) (ep (h nxt)) < tau P)))"

text \<open>
  The states of a run of \<^verbatim>\<open>simplify_ring\<close> on the coordinates \<open>cs\<close>, seen at the head
  of the loop: the state before the loop, and the state after each iteration.
\<close>

inductive reachable :: "params \<Rightarrow> point list \<Rightarrow> point state \<Rightarrow> bool" for P cs where
  reachable_init: "init_state cs = Inr st \<Longrightarrow> reachable P cs st"
| reachable_step: "reachable P cs st \<Longrightarrow> loop_cond st \<Longrightarrow> loop_body P st = Inr st' \<Longrightarrow>
     reachable P cs st'"

text \<open>No one of the first \<open>n\<close> iterations from \<open>st\<close> runs \<^verbatim>\<open>segment_regression\<close>.\<close>

fun regression_free :: "params \<Rightarrow> nat \<Rightarrow> point state \<Rightarrow> bool" where
  "regression_free P 0 st = True"
| "regression_free P (Suc n) st =
     (if loop_cond st then
        \<not> regresses P st (queue st ! 0)
        \<and> (case loop_body P st of Inl e \<Rightarrow> True | Inr st' \<Rightarrow> regression_free P n st')
      else True)"

text \<open>The point \<open>q\<close> lies on the line through \<open>a\<close> and \<open>b\<close>.\<close>

definition on_line :: "point \<Rightarrow> point \<Rightarrow> point \<Rightarrow> bool" where
  "on_line a b q \<longleftrightarrow>
     (fst q - fst a) * (snd b - snd a) = (snd q - snd a) * (fst b - fst a)"

section \<open>Example inputs\<close>

text \<open>
  The parameters \<^verbatim>\<open>simplify_ring\<close> takes by default, and the unit square as a closed
  ring of five coordinates.
\<close>

definition default_params :: params where
  "default_params = \<lparr>tau = 1, epsilon = pi / 36, delta = pi / 180, gamma = None, merge_first = False\<rparr>"

definition square :: "point list" where
  "square = [(0, 0), (1, 0), (1, 1), (0, 1), (0, 0)]"

text \<open>
  A Python float is a finite number, an infinity or NaN. \<^verbatim>\<open>Ring\<close> takes coordinates of
  any kind, so it can be asked what it does with these.
\<close>

datatype py_float = Finite real | PosInf | NegInf | NaN


text \<open>
  The state in which the dispatch of the first iteration starts: the state before the loop,
  the popped segment taken out of its queue.
\<close>

definition first_pop :: "point list \<Rightarrow> point state" where
  "first_pop cs =
     (let st = projr (init_state cs)
      in st\<lparr>queue := snd (projr (heappop (seg_lt (heap st)) (queue st)))\<rparr>)"

text \<open>
  Two rectangles with the lower right corner cut off by segment 1, the shortest segment;
  in the second one the segment before it is shorter than the segment after it. The
  parameters are the default ones but for \<open>tau = 2\<close> and the given \<open>gamma\<close>.
\<close>

definition cut_corner :: "point list" where
  "cut_corner = [(0, 0), (3, 0), (4, 1), (4, 4), (0, 4), (0, 0)]"

definition cut_corner2 :: "point list" where
  "cut_corner2 = [(1, 0), (3, 0), (4, 1), (4, 4), (1, 4), (1, 0)]"

definition wide_params :: "real option \<Rightarrow> params" where
  "wide_params g = \<lparr>tau = 2, epsilon = pi / 36, delta = pi / 180, gamma = g, merge_first = False\<rparr>"

section \<open>Lemmas\<close>

lemma chain_append: "chain h (xs @ y # ys) b = (chain h xs y \<and> chain h (y # ys) b)"
  by (induction h xs y rule: chain.induct) auto

lemma chain_snoc: "chain h (xs @ [l]) b = (chain h xs l \<and> link h l b)"
  by (simp add: chain_append)

lemma chain_rotate:
  assumes "chain h (as @ bs) (hd (as @ bs))"
  shows "chain h (bs @ as) (hd (bs @ as))"
proof (cases as)
  case Nil
  with assms show ?thesis by simp
next
  case (Cons a as')
  show ?thesis
  proof (cases bs)
    case Nil
    with assms show ?thesis by simp
  next
    case (Cons b bs')
    with assms \<open>as = a # as'\<close> show ?thesis
      using chain_append [of h "a # as'" b bs' a] chain_append [of h "b # bs'" a as' b]
      by simp
  qed
qed

lemma set_sp_simps [simp]:
  "sp (set_sp h a p x) = (if x = a then p else sp (h x))"
  "ep (set_sp h a p x) = ep (h x)"
  "next_seg (set_sp h a p x) = next_seg (h x)"
  "prev_seg (set_sp h a p x) = prev_seg (h x)"
  by (simp_all add: set_sp_def)

lemma set_ep_simps [simp]:
  "ep (set_ep h a p x) = (if x = a then p else ep (h x))"
  "sp (set_ep h a p x) = sp (h x)"
  "next_seg (set_ep h a p x) = next_seg (h x)"
  "prev_seg (set_ep h a p x) = prev_seg (h x)"
  by (simp_all add: set_ep_def)

lemma set_next_seg_simps [simp]:
  "next_seg (set_next_seg h a b x) = (if x = a then b else next_seg (h x))"
  "sp (set_next_seg h a b x) = sp (h x)"
  "ep (set_next_seg h a b x) = ep (h x)"
  "prev_seg (set_next_seg h a b x) = prev_seg (h x)"
  by (simp_all add: set_next_seg_def)

lemma set_prev_seg_simps [simp]:
  "prev_seg (set_prev_seg h a b x) = (if x = a then b else prev_seg (h x))"
  "sp (set_prev_seg h a b x) = sp (h x)"
  "ep (set_prev_seg h a b x) = ep (h x)"
  "next_seg (set_prev_seg h a b x) = next_seg (h x)"
  by (simp_all add: set_prev_seg_def)

lemma chain_frame:
  "chain h xs b \<Longrightarrow>
   (\<And>x. x \<in> set xs \<Longrightarrow> next_seg (h' x) = next_seg (h x) \<and> ep (h' x) = ep (h x)) \<Longrightarrow>
   (\<And>y. y \<in> set (tl xs) \<or> y = b \<Longrightarrow> prev_seg (h' y) = prev_seg (h y) \<and> sp (h' y) = sp (h y)) \<Longrightarrow>
   chain h' xs b"
  by (induction h xs b rule: chain.induct) (auto simp: link_def)

lemma chain_ends:
  "chain h (s # zs) s \<Longrightarrow> next_seg (h s) = hd (zs @ [s]) \<and> prev_seg (h s) = last (s # zs)"
proof (cases zs rule: rev_cases)
  case Nil
  assume "chain h (s # zs) s"
  with Nil show ?thesis by (simp add: link_def)
next
  case (snoc ms l)
  assume "chain h (s # zs) s"
  with snoc have "chain h (s # ms) l" "link h l s"
    using chain_snoc [of h "s # ms" l s] by simp_all
  then show ?thesis using snoc by (cases ms) (auto simp: link_def)
qed

lemma ring_normal_form:
  assumes "distinct xs" "s \<in> set xs"
  obtains zs where "distinct (s # zs)" "set (s # zs) = set xs" "Suc (length zs) = length xs"
    "\<And>h :: 'p store. chain h xs (hd xs) \<longleftrightarrow> chain h (s # zs) s"
    "\<And>h :: 'p store. chain h (remove1 s xs) (hd (remove1 s xs)) \<longleftrightarrow> chain h zs (hd zs)"
    "set zs = set (remove1 s xs)"
proof -
  from assms(2) obtain as bs where xs: "xs = as @ s # bs"
    by (auto dest: split_list)
  with assms(1) have d: "distinct (s # bs @ as)" and nin: "s \<notin> set as"
    by auto
  have r: "remove1 s xs = as @ bs"
    using xs nin by (simp add: remove1_append)
  have c1: "chain h xs (hd xs) \<longleftrightarrow> chain h (s # bs @ as) s" for h :: "'p store"
    using chain_rotate [of h as "s # bs"] chain_rotate [of h "s # bs" as] xs by auto
  have c2: "chain h (remove1 s xs) (hd (remove1 s xs)) \<longleftrightarrow> chain h (bs @ as) (hd (bs @ as))"
    for h :: "'p store"
    using chain_rotate [of h as bs] chain_rotate [of h bs as] r by auto
  show thesis
    by (rule that [of "bs @ as"]) (use d xs r c1 c2 in auto)
qed

lemma heap_Ring_merge:
  "s \<in> set (segments r) \<Longrightarrow>
   heap (Ring_merge r s) =
     set_sp (set_prev_seg (set_next_seg (heap r) (prev_seg (heap r s)) (next_seg (heap r s)))
               (next_seg (heap r s)) (prev_seg (heap r s)))
       (next_seg (heap r s)) (ep (heap r (prev_seg (heap r s))))"
  by (simp add: Ring_merge_def Let_def)

lemma heap_Ring_remove:
  "s \<in> set (segments r) \<Longrightarrow>
   heap (Ring_remove r s q) =
     set_sp (set_ep (set_prev_seg (set_next_seg (heap r) (prev_seg (heap r s)) (next_seg (heap r s)))
                       (next_seg (heap r s)) (prev_seg (heap r s)))
               (prev_seg (heap r s)) q)
       (next_seg (heap r s)) q"
  by (simp add: Ring_remove_def Let_def)

lemma heap_Ring_update:
  "s \<in> set (segments r) \<Longrightarrow>
   heap (fst (Ring_update r s p q)) =
     set_sp (set_ep (set_ep (set_sp (heap r) s p) s q) (prev_seg (heap r s)) p)
       (next_seg (heap r s)) (if prev_seg (heap r s) = s then p else q)"
  by (simp add: Ring_update_def Let_def)

lemma merge_chain:
  assumes d: "distinct (s # zs)" and c: "chain h0 (s # zs) s"
  defines "h1 \<equiv> set_next_seg h0 (prev_seg (h0 s)) (next_seg (h0 s))"
  defines "h2 \<equiv> set_prev_seg h1 (next_seg (h0 s)) (prev_seg (h0 s))"
  defines "h3 \<equiv> set_sp h2 (next_seg (h0 s)) (ep (h0 (prev_seg (h0 s))))"
  shows "chain h3 zs (hd zs)"
proof (cases zs rule: rev_cases)
  case Nil
  then show ?thesis by simp
next
  case (snoc ms l)
  with c have cm: "chain h0 (s # ms) l" and ll: "link h0 l s"
    using chain_snoc [of h0 "s # ms" l s] by simp_all
  from c have e: "next_seg (h0 s) = hd (zs @ [s])" "prev_seg (h0 s) = last (s # zs)"
    using chain_ends by blast+
  show ?thesis
  proof (cases ms)
    case Nil
    with snoc e d show ?thesis
      by (simp add: h3_def h2_def h1_def link_def)
  next
    case (Cons z ms')
    with cm have cz: "chain h0 (z # ms') l" by simp
    have "chain h3 (z # ms') l"
      using cz
      by (rule chain_frame) (use d snoc Cons e in \<open>auto simp: h3_def h2_def h1_def\<close>)
    moreover have "link h3 l z"
      using d snoc Cons e ll by (auto simp: h3_def h2_def h1_def link_def)
    ultimately show ?thesis
      using snoc Cons chain_snoc [of h3 "z # ms'" l z] by simp
  qed
qed

lemma update_chain:
  fixes p q :: 'p
  assumes d: "distinct (s # zs)" and c: "chain h0 (s # zs) s"
  defines "h1 \<equiv> set_sp h0 s p"
  defines "h2 \<equiv> set_ep h1 s q"
  defines "h3 \<equiv> set_ep h2 (prev_seg (h0 s)) p"
  defines "h4 \<equiv> set_sp h3 (next_seg (h0 s)) (if prev_seg (h0 s) = s then p else q)"
  shows "chain h4 (s # zs) s"
proof (cases zs rule: rev_cases)
  case Nil
  with c show ?thesis by (simp add: h4_def h3_def h2_def h1_def link_def)
next
  case (snoc ms l)
  with c have cm: "chain h0 (s # ms) l" and ll: "link h0 l s"
    using chain_snoc [of h0 "s # ms" l s] by simp_all
  from c have e: "next_seg (h0 s) = hd (zs @ [s])" "prev_seg (h0 s) = last (s # zs)"
    using chain_ends by blast+
  show ?thesis
  proof (cases ms)
    case Nil
    with snoc e d cm ll show ?thesis
      by (simp add: h4_def h3_def h2_def h1_def link_def)
  next
    case (Cons z ms')
    with cm have cz: "chain h0 (z # ms') l" and sz: "link h0 s z" by simp_all
    have "chain h4 (z # ms') l"
      using cz
      by (rule chain_frame) (use d snoc Cons e in \<open>auto simp: h4_def h3_def h2_def h1_def\<close>)
    moreover have "link h4 l s"
      using d snoc Cons e ll by (auto simp: h4_def h3_def h2_def h1_def link_def)
    moreover have "link h4 s z"
      using d snoc Cons e sz by (auto simp: h4_def h3_def h2_def h1_def link_def)
    ultimately show ?thesis
      using snoc Cons chain_snoc [of h4 "s # z # ms'" l s] by simp
  qed
qed

lemma remove_chain:
  fixes q :: 'p
  assumes d: "distinct (s # zs)" and c: "chain h0 (s # zs) s"
  defines "h1 \<equiv> set_next_seg h0 (prev_seg (h0 s)) (next_seg (h0 s))"
  defines "h2 \<equiv> set_prev_seg h1 (next_seg (h0 s)) (prev_seg (h0 s))"
  defines "h3 \<equiv> set_ep h2 (prev_seg (h0 s)) q"
  defines "h4 \<equiv> set_sp h3 (next_seg (h0 s)) q"
  shows "chain h4 zs (hd zs)"
proof (cases zs rule: rev_cases)
  case Nil
  then show ?thesis by simp
next
  case (snoc ms l)
  with c have cm: "chain h0 (s # ms) l" and ll: "link h0 l s"
    using chain_snoc [of h0 "s # ms" l s] by simp_all
  from c have e: "next_seg (h0 s) = hd (zs @ [s])" "prev_seg (h0 s) = last (s # zs)"
    using chain_ends by blast+
  show ?thesis
  proof (cases ms)
    case Nil
    with snoc e d show ?thesis
      by (simp add: h4_def h3_def h2_def h1_def link_def)
  next
    case (Cons z ms')
    with cm have cz: "chain h0 (z # ms') l" by simp
    have "chain h4 (z # ms') l"
      using cz
      by (rule chain_frame) (use d snoc Cons e in \<open>auto simp: h4_def h3_def h2_def h1_def\<close>)
    moreover have "link h4 l z"
      using d snoc Cons e ll by (auto simp: h4_def h3_def h2_def h1_def link_def)
    ultimately show ?thesis
      using snoc Cons chain_snoc [of h4 "z # ms'" l z] by simp
  qed
qed

lemma ring_inv_merge: "ring_inv r \<Longrightarrow> ring_inv (Ring_merge r s)"
proof (cases "s \<in> set (segments r)")
  case False
  assume "ring_inv r"
  with False show ?thesis by (simp add: Ring_merge_def)
next
  case True
  assume inv: "ring_inv r"
  then have d: "distinct (segments r)" by (simp add: ring_inv_def)
  from ring_normal_form [OF d True] obtain zs where zs: "distinct (s # zs)"
    "\<And>h :: 'a store. chain h (segments r) (hd (segments r)) \<longleftrightarrow> chain h (s # zs) s"
    "\<And>h :: 'a store. chain h (remove1 s (segments r)) (hd (remove1 s (segments r))) \<longleftrightarrow> chain h zs (hd zs)"
    by metis
  from inv zs(2) have c: "chain (heap r) (s # zs) s" by (simp add: ring_inv_def)
  have "chain (heap (Ring_merge r s)) zs (hd zs)"
    unfolding heap_Ring_merge [OF True] by (rule merge_chain [OF zs(1) c])
  moreover have "segments (Ring_merge r s) = remove1 s (segments r)"
    using True by (simp add: Ring_merge_def Let_def)
  ultimately show ?thesis using zs(3) d by (simp add: ring_inv_def)
qed

lemma ring_inv_remove: "ring_inv r \<Longrightarrow> ring_inv (Ring_remove r s q)"
proof (cases "s \<in> set (segments r)")
  case False
  assume "ring_inv r"
  with False show ?thesis by (simp add: Ring_remove_def)
next
  case True
  assume inv: "ring_inv r"
  then have d: "distinct (segments r)" by (simp add: ring_inv_def)
  from ring_normal_form [OF d True] obtain zs where zs: "distinct (s # zs)"
    "\<And>h :: 'a store. chain h (segments r) (hd (segments r)) \<longleftrightarrow> chain h (s # zs) s"
    "\<And>h :: 'a store. chain h (remove1 s (segments r)) (hd (remove1 s (segments r))) \<longleftrightarrow> chain h zs (hd zs)"
    by metis
  from inv zs(2) have c: "chain (heap r) (s # zs) s" by (simp add: ring_inv_def)
  have "chain (heap (Ring_remove r s q)) zs (hd zs)"
    unfolding heap_Ring_remove [OF True] by (rule remove_chain [OF zs(1) c])
  moreover have "segments (Ring_remove r s q) = remove1 s (segments r)"
    using True by (simp add: Ring_remove_def Let_def)
  ultimately show ?thesis using zs(3) d by (simp add: ring_inv_def)
qed

lemma ring_inv_update: "ring_inv r \<Longrightarrow> ring_inv (fst (Ring_update r s p q))"
proof (cases "s \<in> set (segments r)")
  case False
  assume "ring_inv r"
  with False show ?thesis by (simp add: Ring_update_def)
next
  case True
  assume inv: "ring_inv r"
  then have d: "distinct (segments r)" by (simp add: ring_inv_def)
  from ring_normal_form [OF d True] obtain zs where zs: "distinct (s # zs)"
    "\<And>h :: 'a store. chain h (segments r) (hd (segments r)) \<longleftrightarrow> chain h (s # zs) s"
    by metis
  from inv zs(2) have c: "chain (heap r) (s # zs) s" by (simp add: ring_inv_def)
  have "chain (heap (fst (Ring_update r s p q))) (s # zs) s"
    unfolding heap_Ring_update [OF True] by (rule update_chain [OF zs(1) c])
  moreover have "segments (fst (Ring_update r s p q)) = segments r"
    by (simp add: Ring_update_def Let_def)
  ultimately show ?thesis using zs(2) d by (simp add: ring_inv_def)
qed

lemma ring_neighbours:
  assumes "ring_inv r" "s \<in> set (segments r)"
  shows "prev_seg (heap r s) \<in> set (segments r)" "next_seg (heap r s) \<in> set (segments r)"
    "link (heap r) (prev_seg (heap r s)) s" "link (heap r) s (next_seg (heap r s))"
    "2 \<le> length (segments r) \<Longrightarrow> prev_seg (heap r s) \<noteq> s \<and> next_seg (heap r s) \<noteq> s"
    "3 \<le> length (segments r) \<Longrightarrow> prev_seg (heap r s) \<noteq> next_seg (heap r s)"
proof -
  from assms have d: "distinct (segments r)" by (simp add: ring_inv_def)
  from ring_normal_form [OF d assms(2)] obtain zs where zs: "distinct (s # zs)"
    "set (s # zs) = set (segments r)" "Suc (length zs) = length (segments r)"
    "\<And>h :: 'a store. chain h (segments r) (hd (segments r)) \<longleftrightarrow> chain h (s # zs) s"
    by metis
  from assms(1) zs(4) have c: "chain (heap r) (s # zs) s" by (simp add: ring_inv_def)
  then have e: "next_seg (heap r s) = hd (zs @ [s])" "prev_seg (heap r s) = last (s # zs)"
    using chain_ends by blast+
  show "prev_seg (heap r s) \<in> set (segments r)"
    using e(2) zs(2) last_in_set [of "s # zs"] by simp
  show "next_seg (heap r s) \<in> set (segments r)"
    using e(1) zs(2) by (cases zs) auto
  show "link (heap r) (prev_seg (heap r s)) s"
  proof (cases zs rule: rev_cases)
    case Nil
    with c e show ?thesis by simp
  next
    case (snoc ms l)
    with c e chain_snoc [of "heap r" "s # ms" l s] show ?thesis by simp
  qed
  show "link (heap r) s (next_seg (heap r s))"
    using c e by (cases zs) auto
  show "prev_seg (heap r s) \<noteq> s \<and> next_seg (heap r s) \<noteq> s" if "2 \<le> length (segments r)"
  proof -
    from that zs(3) have "zs \<noteq> []" by auto
    then have "last zs \<in> set zs" "hd zs \<in> set zs" by simp_all
    with zs(1) e \<open>zs \<noteq> []\<close> show ?thesis by auto
  qed
  show "prev_seg (heap r s) \<noteq> next_seg (heap r s)" if "3 \<le> length (segments r)"
  proof -
    from that zs(3) have "2 \<le> length zs" by simp
    then obtain a c ys where z: "zs = a # c # ys"
      by (metis Suc_le_length_iff numeral_2_eq_2)
    have "last (c # ys) \<in> set (c # ys)" by (rule last_in_set) simp
    with zs(1) e z show ?thesis by auto
  qed
qed

declare siftdown_loop.simps [simp del] siftup_loop.simps [simp del]

lemma length_siftdown_loop [simp]:
  "length (siftdown_loop lt hp startpos pos newitem) = length hp"
  by (induction lt hp startpos pos newitem rule: siftdown_loop.induct)
     (subst siftdown_loop.simps, simp add: Let_def)

lemma mset_siftdown_loop:
  "pos < length hp \<Longrightarrow>
   mset (siftdown_loop lt hp startpos pos newitem) = mset (hp[pos := newitem])"
proof (induction lt hp startpos pos newitem rule: siftdown_loop.induct)
  case (1 lt hp startpos pos newitem)
  show ?case
  proof (cases "startpos < pos \<and> lt newitem (hp ! ((pos - 1) div 2))")
    case True
    let ?pp = "(pos - 1) div 2"
    from True "1.prems" have pp: "?pp < length hp" "?pp \<noteq> pos" by auto
    have "mset (siftdown_loop lt hp startpos pos newitem)
        = mset (siftdown_loop lt (hp[pos := hp ! ?pp]) startpos ?pp newitem)"
      using True by (subst siftdown_loop.simps) (simp add: Let_def)
    also have "\<dots> = mset (hp[pos := hp ! ?pp, ?pp := newitem])"
      using "1.IH" [OF _ refl refl] True pp by simp
    also have "\<dots> = mset (hp[pos := newitem])"
      using pp "1.prems" by (simp add: mset_update nth_list_update)
    finally show ?thesis .
  next
    case False
    then show ?thesis by (subst siftdown_loop.simps) (auto simp: Let_def)
  qed
qed

lemma siftup_loop_props:
  "pos < length hp \<Longrightarrow> siftup_loop lt hp pos = (hp', pos') \<Longrightarrow>
   length hp' = length hp \<and> pos' < length hp \<and> mset (hp'[pos' := x]) = mset (hp[pos := x])"
proof (induction lt hp pos arbitrary: hp' pos' rule: siftup_loop.induct)
  case (1 lt hp pos)
  show ?case
  proof (cases "2 * pos + 1 < length hp")
    case False
    with "1.prems" show ?thesis by (subst (asm) siftup_loop.simps) (simp add: Let_def)
  next
    case True
    define c where "c = (if 2 * pos + 1 + 1 < length hp \<and> \<not> lt (hp ! (2 * pos + 1)) (hp ! (2 * pos + 1 + 1))
                         then 2 * pos + 1 + 1 else 2 * pos + 1)"
    have c: "c < length hp" "c \<noteq> pos" using True by (auto simp: c_def)
    have rec: "siftup_loop lt (hp[pos := hp ! c]) c = (hp', pos')"
      using "1.prems"(2) True by (subst (asm) siftup_loop.simps) (auto simp: Let_def c_def)
    have "length hp' = length (hp[pos := hp ! c]) \<and> pos' < length (hp[pos := hp ! c])
        \<and> mset (hp'[pos' := x]) = mset (hp[pos := hp ! c, c := x])"
      using "1.IH" [OF refl True refl refl _ rec [unfolded c_def]] c unfolding c_def by simp
    moreover have "mset (hp[pos := hp ! c, c := x]) = mset (hp[pos := x])"
      using c "1.prems"(1) by (simp add: mset_update nth_list_update)
    ultimately show ?thesis by simp
  qed
qed

lemma mset_siftdown: "pos < length hp \<Longrightarrow> mset (siftdown lt hp startpos pos) = mset hp"
  by (simp add: siftdown_def mset_siftdown_loop)

lemma mset_siftup: "pos < length hp \<Longrightarrow> mset (siftup lt hp pos) = mset hp"
proof -
  assume pos: "pos < length hp"
  obtain hp' pos' where r: "siftup_loop lt hp pos = (hp', pos')" by force
  from siftup_loop_props [OF pos r, of "hp ! pos"]
  have "length hp' = length hp" "pos' < length hp" "mset (hp'[pos' := hp ! pos]) = mset hp"
    by simp_all
  then show ?thesis by (simp add: siftup_def r mset_siftdown)
qed

lemma mset_heappush: "mset (heappush lt hp item) = add_mset item (mset hp)"
  by (simp add: heappush_def mset_siftdown)

lemma mset_heapify: "mset (heapify lt x) = mset x"
proof -
  have "\<forall>i\<in>set is. i < length x \<Longrightarrow> mset (fold (\<lambda>i x. siftup lt x i) is x) = mset x" for "is"
  proof (induction "is" arbitrary: x)
    case Nil
    then show ?case by simp
  next
    case (Cons i "is")
    have "mset (siftup lt x i) = mset x" using Cons.prems by (simp add: mset_siftup)
    moreover have "length (siftup lt x i) = length x"
      using \<open>mset (siftup lt x i) = mset x\<close> by (rule mset_eq_length)
    ultimately show ?case using Cons.IH [of "siftup lt x i"] Cons.prems by simp
  qed
  moreover have "\<forall>i\<in>set (rev [0..<length x div 2]). i < length x" by auto
  ultimately show ?thesis
    unfolding heapify_def by blast
qed

lemma heappop_nonempty:
  assumes "hp \<noteq> []"
  obtains hp' where "heappop lt hp = Inr (hp ! 0, hp')" "mset hp = add_mset (hp ! 0) (mset hp')"
proof (cases "butlast hp = []")
  case True
  with assms obtain x where hp: "hp = [x]" by (cases hp) (auto split: if_splits)
  show ?thesis
    by (rule that [of "[]"]) (simp_all add: hp heappop_def)
next
  case False
  let ?b = "butlast hp"
  from False have len: "Suc 0 < length hp"
    by (cases hp) (auto split: if_splits)
  have m: "mset (siftup lt (?b[0 := last hp]) 0) = mset (?b[0 := last hp])"
    using len by (intro mset_siftup) simp
  have "mset hp = add_mset (last hp) (mset ?b)"
    using assms append_butlast_last_id [of hp] mset_append [of ?b "[last hp]"] by simp
  moreover have "mset (?b[0 := last hp]) = add_mset (last hp) (mset ?b - {#?b ! 0#})"
    using len by (simp add: mset_update)
  moreover have "?b ! 0 \<in># mset ?b" using len by (simp add: nth_mem)
  moreover have "?b ! 0 = hp ! 0" using len by (simp add: nth_butlast)
  ultimately show ?thesis
    using False assms m
    by (intro that [of "siftup lt (?b[0 := last hp]) 0"]) (auto simp: heappop_def Let_def)
qed

lemma below_le: "below k p \<Longrightarrow> k \<le> p"
  by (induction rule: below.induct) auto

lemma below_parent: "below k p \<Longrightarrow> p \<noteq> k \<Longrightarrow> below k ((p - 1) div 2) \<and> 0 < p"
  by (cases rule: below.cases) auto

lemma below_zero: "below 0 p"
proof (induction p rule: less_induct)
  case (less p)
  show ?case
  proof (cases "p = 0")
    case True
    then show ?thesis by (simp add: below_refl)
  next
    case False
    then have "(p - 1) div 2 < p" by auto
    then have "below 0 ((p - 1) div 2)" by (rule less.IH)
    with False show ?thesis by (auto intro: below_child)
  qed
qed

lemma siftdown_loop_heap:
  fixes key :: "'a \<Rightarrow> 'k::linorder"
  assumes "pos < length hp" "below k pos"
    and "\<And>i. 0 < i \<Longrightarrow> i < length hp \<Longrightarrow> i \<noteq> pos \<Longrightarrow> k \<le> (i - 1) div 2 \<Longrightarrow>
           key (hp ! ((i - 1) div 2)) \<le> key (hp ! i)"
    and "key item \<le> key (hp ! pos)"
    and "\<And>c. pos \<noteq> k \<Longrightarrow> 0 < c \<Longrightarrow> c < length hp \<Longrightarrow> (c - 1) div 2 = pos \<Longrightarrow>
           key (hp ! ((pos - 1) div 2)) \<le> key (hp ! c)"
  shows "heap_from key k (siftdown_loop (\<lambda>a b. key a < key b) hp k pos item)"
  using assms
proof (induction "\<lambda>a b. key a < key b" hp k pos item rule: siftdown_loop.induct)
  case (1 hp k pos item)
  let ?pp = "(pos - 1) div 2"
  show ?case
  proof (cases "k < pos \<and> key item < key (hp ! ?pp)")
    case True
    then have ne: "pos \<noteq> k" by simp
    with "1.prems"(2) have bp: "below k ?pp" and pos0: "0 < pos"
      using below_parent by blast+
    have pp: "?pp < pos" using pos0 by auto
    have eq: "siftdown_loop (\<lambda>a b. key a < key b) hp k pos item
            = siftdown_loop (\<lambda>a b. key a < key b) (hp[pos := hp ! ?pp]) k ?pp item"
      using True by (subst siftdown_loop.simps) (simp add: Let_def)
    have "heap_from key k (siftdown_loop (\<lambda>a b. key a < key b) (hp[pos := hp ! ?pp]) k ?pp item)"
    proof (rule "1.hyps" [OF _ refl refl])
      show "k < pos" using True by simp
      show "key item < key (hp ! ?pp)" using True by simp
      show "?pp < length (hp[pos := hp ! ?pp])" using pp "1.prems"(1) by simp
      show "below k ?pp" by (rule bp)
      show "key item \<le> key (hp[pos := hp ! ?pp] ! ?pp)"
        using True pp by (auto simp: less_imp_le)
    next
      fix i assume i: "0 < i" "i < length (hp[pos := hp ! ?pp])" "i \<noteq> ?pp" "k \<le> (i - 1) div 2"
      show "key (hp[pos := hp ! ?pp] ! ((i - 1) div 2)) \<le> key (hp[pos := hp ! ?pp] ! i)"
      proof (cases "i = pos")
        case True
        then show ?thesis using pp "1.prems"(1) by simp
      next
        case False
        show ?thesis
        proof (cases "(i - 1) div 2 = pos")
          case True
          with "1.prems"(5) [OF ne i(1) _ True] i(2) False "1.prems"(1) show ?thesis by simp
        next
          case f2: False
          with "1.prems"(3) [OF i(1) _ False i(4)] i(2) False show ?thesis by simp
        qed
      qed
    next
      fix c assume c: "?pp \<noteq> k" "0 < c" "c < length (hp[pos := hp ! ?pp])" "(c - 1) div 2 = ?pp"
      from c(1) bp have bpp: "below k ((?pp - 1) div 2)" "0 < ?pp"
        using below_parent by blast+
      then have kpp: "k \<le> (?pp - 1) div 2" using below_le by blast
      have ppp: "(?pp - 1) div 2 < ?pp" using bpp(2) by auto
      have g: "key (hp ! ((?pp - 1) div 2)) \<le> key (hp ! ?pp)"
        using "1.prems"(3) [OF bpp(2) _ _ kpp] pp "1.prems"(1) by simp
      show "key (hp[pos := hp ! ?pp] ! ((?pp - 1) div 2)) \<le> key (hp[pos := hp ! ?pp] ! c)"
      proof (cases "c = pos")
        case True
        with g ppp pp "1.prems"(1) show ?thesis by simp
      next
        case False
        have "k \<le> (c - 1) div 2" using c(4) bp below_le by auto
        from "1.prems"(3) [OF c(2) _ False this] c(3,4)
        have "key (hp ! ?pp) \<le> key (hp ! c)" by simp
        with g False ppp pp show ?thesis by simp
      qed
    qed
    with eq show ?thesis by simp
  next
    case False
    have eq: "siftdown_loop (\<lambda>a b. key a < key b) hp k pos item = hp[pos := item]"
      using False by (subst siftdown_loop.simps) (auto simp: Let_def)
    have "key (hp[pos := item] ! ((i - 1) div 2)) \<le> key (hp[pos := item] ! i)"
      if i: "0 < i" "i < length hp" "k \<le> (i - 1) div 2" for i
    proof (cases "i = pos")
      case True
      have "pos \<noteq> k" using i True by auto
      with "1.prems"(2) have "k < pos" using below_le [of k pos] by auto
      with False have "key (hp ! ?pp) \<le> key item" by auto
      moreover have "?pp \<noteq> pos" using i True by auto
      ultimately show ?thesis using True i by simp
    next
      case ne: False
      show ?thesis
      proof (cases "(i - 1) div 2 = pos")
        case True
        have "key (hp ! pos) \<le> key (hp ! i)"
          using "1.prems"(3) [OF i(1,2) ne i(3)] True by simp
        with "1.prems"(4) True ne i "1.prems"(1) show ?thesis by simp
      next
        case False
        with "1.prems"(3) [OF i(1,2) ne i(3)] ne show ?thesis by simp
      qed
    qed
    then show ?thesis by (simp add: eq heap_from_def)
  qed
qed

lemma siftup_loop_heap:
  fixes key :: "'a \<Rightarrow> 'k::linorder"
  assumes "pos < length hp" "below k pos"
    and "\<And>i. 0 < i \<Longrightarrow> i < length hp \<Longrightarrow> k \<le> (i - 1) div 2 \<Longrightarrow> (i - 1) div 2 \<noteq> pos \<Longrightarrow>
           key (hp ! ((i - 1) div 2)) \<le> key (hp ! i)"
    and "\<And>c. pos \<noteq> k \<Longrightarrow> 0 < c \<Longrightarrow> c < length hp \<Longrightarrow> (c - 1) div 2 = pos \<Longrightarrow>
           key (hp ! ((pos - 1) div 2)) \<le> key (hp ! c)"
    and "siftup_loop (\<lambda>a b. key a < key b) hp pos = (hp', pos')"
  shows "below k pos' \<and> length hp' = length hp \<and> pos' < length hp \<and> \<not> 2 * pos' + 1 < length hp
       \<and> (\<forall>i. 0 < i \<and> i < length hp \<and> k \<le> (i - 1) div 2 \<and> (i - 1) div 2 \<noteq> pos'
              \<longrightarrow> key (hp' ! ((i - 1) div 2)) \<le> key (hp' ! i))"
  using assms
proof (induction "\<lambda>a b. key a < key b" hp pos arbitrary: hp' pos' rule: siftup_loop.induct)
  case (1 hp pos)
  show ?case
  proof (cases "2 * pos + 1 < length hp")
    case False
    with "1.prems"(5) have "hp' = hp" "pos' = pos"
      by (subst (asm) siftup_loop.simps, simp add: Let_def)+
    with False "1.prems" show ?thesis by auto
  next
    case True
    define c where "c = (if 2 * pos + 1 + 1 < length hp
                            \<and> \<not> key (hp ! (2 * pos + 1)) < key (hp ! (2 * pos + 1 + 1))
                         then 2 * pos + 1 + 1 else 2 * pos + 1)"
    have c: "c < length hp" "pos < c" "(c - 1) div 2 = pos" "0 < c"
      using True by (auto simp: c_def)
    have rec: "siftup_loop (\<lambda>a b. key a < key b) (hp[pos := hp ! c]) c = (hp', pos')"
      using "1.prems"(5) True by (subst (asm) siftup_loop.simps) (auto simp: Let_def c_def)
    have kpos: "k \<le> pos" using "1.prems"(2) by (rule below_le)
    have sib: "key (hp ! c) \<le> key (hp ! i)" if "0 < i" "i < length hp" "(i - 1) div 2 = pos" for i
    proof -
      from that have "i = 2 * pos + 1 \<or> i = 2 * pos + 1 + 1" by auto
      then show ?thesis using that by (auto simp: c_def not_less less_imp_le)
    qed
    have "below k pos' \<and> length hp' = length (hp[pos := hp ! c]) \<and> pos' < length (hp[pos := hp ! c])
        \<and> \<not> 2 * pos' + 1 < length (hp[pos := hp ! c])
        \<and> (\<forall>i. 0 < i \<and> i < length (hp[pos := hp ! c]) \<and> k \<le> (i - 1) div 2 \<and> (i - 1) div 2 \<noteq> pos'
              \<longrightarrow> key (hp' ! ((i - 1) div 2)) \<le> key (hp' ! i))"
    proof (rule "1.hyps" [OF refl True refl refl _ _ _ _ rec [unfolded c_def], folded c_def])
      show "c < length (hp[pos := hp ! c])" using c by simp
      show "below k c" using "1.prems"(2) c by (auto intro: below_child)
    next
      fix i
      assume i: "0 < i" "i < length (hp[pos := hp ! c])" "k \<le> (i - 1) div 2" "(i - 1) div 2 \<noteq> c"
      show "key (hp[pos := hp ! c] ! ((i - 1) div 2)) \<le> key (hp[pos := hp ! c] ! i)"
      proof (cases "(i - 1) div 2 = pos")
        case True
        then have "i \<noteq> pos" using i(1) by auto
        with sib [OF i(1) _ True] i(2) True "1.prems"(1) show ?thesis by simp
      next
        case False
        show ?thesis
        proof (cases "i = pos")
          case True
          then have "pos \<noteq> k" using i by auto
          from "1.prems"(4) [OF this c(4) c(1) c(3)] True False "1.prems"(1) show ?thesis by simp
        next
          case f: False
          with "1.prems"(3) [OF i(1) _ i(3) False] i(2) False show ?thesis by simp
        qed
      qed
    next
      fix d assume d: "c \<noteq> k" "0 < d" "d < length (hp[pos := hp ! c])" "(d - 1) div 2 = c"
      have "d \<noteq> pos" using d(4) c(2) d(2) by auto
      moreover have "key (hp ! c) \<le> key (hp ! d)"
        using "1.prems"(3) [of d] d c kpos by auto
      ultimately show "key (hp[pos := hp ! c] ! ((c - 1) div 2)) \<le> key (hp[pos := hp ! c] ! d)"
        using c "1.prems"(1) by simp
    qed
    then show ?thesis by simp
  qed
qed

lemma siftup_heap:
  fixes key :: "'a \<Rightarrow> 'k::linorder"
  assumes h: "heap_from key (Suc k) hp" and k: "k < length hp"
  shows "heap_from key k (siftup (\<lambda>a b. key a < key b) hp k)"
proof -
  obtain hp' pos' where r: "siftup_loop (\<lambda>a b. key a < key b) hp k = (hp', pos')" by force
  have p: "below k pos' \<and> length hp' = length hp \<and> pos' < length hp \<and> \<not> 2 * pos' + 1 < length hp
       \<and> (\<forall>i. 0 < i \<and> i < length hp \<and> k \<le> (i - 1) div 2 \<and> (i - 1) div 2 \<noteq> pos'
              \<longrightarrow> key (hp' ! ((i - 1) div 2)) \<le> key (hp' ! i))"
  proof (rule siftup_loop_heap [OF k below_refl _ _ r])
    fix i assume "0 < i" "i < length hp" "k \<le> (i - 1) div 2" "(i - 1) div 2 \<noteq> k"
    with h show "key (hp ! ((i - 1) div 2)) \<le> key (hp ! i)"
      by (auto simp: heap_from_def)
  qed simp
  let ?hp = "hp'[pos' := hp ! k]"
  have leaf: "(i - 1) div 2 \<noteq> pos'" if "0 < i" "i < length hp" for i
    using p that by auto
  have "heap_from key k (siftdown_loop (\<lambda>a b. key a < key b) ?hp k pos' (hp ! k))"
  proof (rule siftdown_loop_heap)
    show "pos' < length ?hp" using p by simp
    show "below k pos'" using p by simp
    show "key (hp ! k) \<le> key (?hp ! pos')" using p by simp
  next
    fix i assume i: "0 < i" "i < length ?hp" "i \<noteq> pos'" "k \<le> (i - 1) div 2"
    with p leaf [of i] show "key (?hp ! ((i - 1) div 2)) \<le> key (?hp ! i)" by simp
  next
    fix c assume "0 < c" "c < length ?hp" "(c - 1) div 2 = pos'"
    with p leaf [of c] show "key (?hp ! ((pos' - 1) div 2)) \<le> key (?hp ! c)" by simp
  qed
  moreover have "?hp ! pos' = hp ! k" using p by simp
  ultimately show ?thesis
    by (simp add: siftup_def r siftdown_def Let_def)
qed

lemma is_heap_from: "is_heap key xs \<longleftrightarrow> heap_from key 0 xs"
  by (auto simp: is_heap_def heap_from_def)

lemma is_heap_heapify:
  fixes key :: "'a \<Rightarrow> 'k::linorder"
  shows "is_heap key (heapify (\<lambda>a b. key a < key b) x)"
proof -
  have "m \<le> length x \<Longrightarrow> heap_from key m x \<Longrightarrow>
        heap_from key 0 (fold (\<lambda>i x. siftup (\<lambda>a b. key a < key b) x i) (rev [0..<m]) x)" for m
  proof (induction m arbitrary: x)
    case 0
    then show ?case by simp
  next
    case (Suc m)
    have "heap_from key m (siftup (\<lambda>a b. key a < key b) x m)"
      using Suc.prems by (intro siftup_heap) auto
    moreover have "length (siftup (\<lambda>a b. key a < key b) x m) = length x"
      using Suc.prems mset_siftup [of m x "\<lambda>a b. key a < key b"] mset_eq_length by fastforce
    ultimately show ?case using Suc.IH [of "siftup (\<lambda>a b. key a < key b) x m"] Suc.prems by simp
  qed
  moreover have "heap_from key (length x div 2) x"
    by (auto simp: heap_from_def)
  ultimately show ?thesis
    by (simp add: heapify_def is_heap_from)
qed

lemma is_heap_heappush:
  fixes key :: "'a \<Rightarrow> 'k::linorder"
  assumes "is_heap key hp"
  shows "is_heap key (heappush (\<lambda>a b. key a < key b) hp item)"
proof -
  have "heap_from key 0 (siftdown_loop (\<lambda>a b. key a < key b) (hp @ [item]) 0 (length hp) item)"
  proof (rule siftdown_loop_heap)
    show "length hp < length (hp @ [item])" by simp
    show "below 0 (length hp)" by (rule below_zero)
    show "key item \<le> key ((hp @ [item]) ! length hp)" by simp
  next
    fix i assume "0 < i" "i < length (hp @ [item])" "i \<noteq> length hp"
    with assms show "key ((hp @ [item]) ! ((i - 1) div 2)) \<le> key ((hp @ [item]) ! i)"
      by (auto simp: is_heap_def nth_append)
  next
    fix c assume "0 < c" "c < length (hp @ [item])" "(c - 1) div 2 = length hp"
    then show "key ((hp @ [item]) ! ((length hp - 1) div 2)) \<le> key ((hp @ [item]) ! c)"
      by auto
  qed
  then show ?thesis
    by (simp add: heappush_def siftdown_def is_heap_from)
qed

lemma is_heap_min:
  fixes key :: "'a \<Rightarrow> 'k::linorder"
  assumes "is_heap key hp" "i < length hp"
  shows "key (hp ! 0) \<le> key (hp ! i)"
  using assms(2)
proof (induction i rule: less_induct)
  case (less i)
  show ?case
  proof (cases "i = 0")
    case True
    then show ?thesis by simp
  next
    case False
    then have "(i - 1) div 2 < i" by auto
    moreover from this less.prems have "(i - 1) div 2 < length hp" by simp
    ultimately have "key (hp ! 0) \<le> key (hp ! ((i - 1) div 2))" by (rule less.IH)
    moreover have "key (hp ! ((i - 1) div 2)) \<le> key (hp ! i)"
      using assms(1) False less.prems by (auto simp: is_heap_def)
    ultimately show ?thesis by simp
  qed
qed

lemma is_heap_heappop:
  fixes key :: "'a \<Rightarrow> 'k::linorder"
  assumes "is_heap key hp" "heappop (\<lambda>a b. key a < key b) hp = Inr (x, hp')"
  shows "is_heap key hp'"
proof (cases "butlast hp = []")
  case True
  with assms(2) show ?thesis
    by (auto simp: heappop_def Let_def is_heap_def split: if_splits)
next
  case False
  let ?b = "(butlast hp)[0 := last hp]"
  from False have len: "Suc 0 < length hp" by (cases hp) (auto split: if_splits)
  from assms(2) False have hp': "hp' = siftup (\<lambda>a b. key a < key b) ?b 0"
    by (auto simp: heappop_def Let_def split: if_splits)
  have "heap_from key (Suc 0) ?b"
    using assms(1) by (auto simp: heap_from_def is_heap_def nth_butlast)
  then have "heap_from key 0 (siftup (\<lambda>a b. key a < key b) ?b 0)"
    using len by (intro siftup_heap) auto
  then show ?thesis by (simp add: hp' is_heap_from)
qed

lemma seg_lt_eq: "seg_lt h = (\<lambda>a b. seg_length h a < seg_length h b)"
  by (intro ext) (simp add: seg_lt_def)

lemma is_heap_cong:
  "(\<And>x. x \<in> set xs \<Longrightarrow> k' x = k x) \<Longrightarrow> is_heap k' xs = is_heap k xs"
proof -
  assume k: "\<And>x. x \<in> set xs \<Longrightarrow> k' x = k x"
  have "k' (xs ! i) = k (xs ! i)" if "i < length xs" for i
    using that k by simp
  moreover have "(i - 1) div 2 < length xs" if "i < length xs" for i
    using that by simp
  ultimately show ?thesis
    by (simp add: is_heap_def)
qed

lemma seg_length_cong:
  "sp (h' x) = sp (h x) \<Longrightarrow> ep (h' x) = ep (h x) \<Longrightarrow> seg_length h' x = seg_length h x"
  by (simp add: seg_length_def)

text \<open>What each edit leaves in the store and in the list, read off field by field.\<close>

lemma Ring_merge_proj:
  assumes "s \<in> set (segments r)"
  shows "sp (heap (Ring_merge r s) x) =
           (if x = next_seg (heap r s) then ep (heap r (prev_seg (heap r s))) else sp (heap r x))"
    "ep (heap (Ring_merge r s) x) = ep (heap r x)"
    "next_seg (heap (Ring_merge r s) x) =
           (if x = prev_seg (heap r s) then next_seg (heap r s) else next_seg (heap r x))"
    "prev_seg (heap (Ring_merge r s) x) =
           (if x = next_seg (heap r s) then prev_seg (heap r s) else prev_seg (heap r x))"
    "segments (Ring_merge r s) = remove1 s (segments r)"
  using assms by (simp_all add: heap_Ring_merge) (simp add: Ring_merge_def Let_def)

lemma Ring_remove_proj:
  assumes "s \<in> set (segments r)"
  shows "sp (heap (Ring_remove r s q) x) = (if x = next_seg (heap r s) then q else sp (heap r x))"
    "ep (heap (Ring_remove r s q) x) = (if x = prev_seg (heap r s) then q else ep (heap r x))"
    "next_seg (heap (Ring_remove r s q) x) =
           (if x = prev_seg (heap r s) then next_seg (heap r s) else next_seg (heap r x))"
    "prev_seg (heap (Ring_remove r s q) x) =
           (if x = next_seg (heap r s) then prev_seg (heap r s) else prev_seg (heap r x))"
    "segments (Ring_remove r s q) = remove1 s (segments r)"
  using assms by (simp_all add: heap_Ring_remove) (simp add: Ring_remove_def Let_def)

lemma Ring_update_proj:
  assumes "s \<in> set (segments r)"
  shows "sp (heap (fst (Ring_update r s p q)) x) =
           (if x = next_seg (heap r s) then (if prev_seg (heap r s) = s then p else q)
            else if x = s then p else sp (heap r x))"
    "ep (heap (fst (Ring_update r s p q)) x) =
           (if x = prev_seg (heap r s) then p else if x = s then q else ep (heap r x))"
    "next_seg (heap (fst (Ring_update r s p q)) x) = next_seg (heap r x)"
    "prev_seg (heap (fst (Ring_update r s p q)) x) = prev_seg (heap r x)"
  using assms by (simp_all add: heap_Ring_update)

lemma Ring_update_simps [simp]:
  "segments (fst (Ring_update r s p q)) = segments r"
  "queue (fst (Ring_update st s p q)) = queue st"
  "snd (Ring_update r s p q) = (if s \<in> set (segments r) then Some s else None)"
  by (simp_all add: Ring_update_def Let_def)

lemma Ring_merge_queue [simp]: "queue (Ring_merge st s) = queue st"
  by (simp add: Ring_merge_def Let_def)

lemma Ring_remove_queue [simp]: "queue (Ring_remove st s q) = queue st"
  by (simp add: Ring_remove_def Let_def)

lemma heapify_list [simp]:
  "set (heapify lt x) = set x" "distinct (heapify lt x) = distinct x"
  "length (heapify lt x) = length x"
  using mset_heapify [of lt x]
  by (rule mset_eq_setD, rule mset_eq_imp_distinct_iff, rule mset_eq_length)

lemma heappush_list [simp]:
  "set (heappush lt hp x) = insert x (set hp)"
  "distinct (heappush lt hp x) = (x \<notin> set hp \<and> distinct hp)"
  "length (heappush lt hp x) = Suc (length hp)"
proof -
  have m: "mset (heappush lt hp x) = mset (x # hp)" by (simp add: mset_heappush)
  show "set (heappush lt hp x) = insert x (set hp)"
    using mset_eq_setD [OF m] by simp
  show "distinct (heappush lt hp x) = (x \<notin> set hp \<and> distinct hp)"
    using mset_eq_imp_distinct_iff [OF m] by simp
  show "length (heappush lt hp x) = Suc (length hp)"
    using mset_eq_length [OF m] by simp
qed

lemma remove_from_queue_simps [simp]:
  "heap (remove_from_queue st x) = heap st"
  "segments (remove_from_queue st x) = segments st"
  "set (queue (remove_from_queue st x)) = set (remove1 x (queue st))"
  "distinct (queue st) \<Longrightarrow> distinct (queue (remove_from_queue st x))"
  "length (queue (remove_from_queue st x)) = length (remove1 x (queue st))"
  by (simp_all add: remove_from_queue_def remove1_idem)

lemma enqueue_simps [simp]:
  "heap (enqueue st x) = heap st"
  "segments (enqueue st x) = segments st"
  "set (queue (enqueue st x)) = insert x (set (queue st))"
  "distinct (queue st) \<Longrightarrow> distinct (queue (enqueue st x))"
  "length (queue (enqueue st x)) = (if x \<in> set (queue st) then length (queue st) else Suc (length (queue st)))"
  by (auto simp: enqueue_def)

lemma is_heap_remove_from_queue:
  "is_heap (seg_length (heap st)) (queue st) \<Longrightarrow>
   is_heap (seg_length (heap st)) (queue (remove_from_queue st x))"
  by (simp add: remove_from_queue_def seg_lt_eq is_heap_heapify)

lemma is_heap_enqueue:
  "is_heap (seg_length (heap st)) (queue st) \<Longrightarrow>
   is_heap (seg_length (heap st)) (queue (enqueue st x))"
  by (simp add: enqueue_def seg_lt_eq is_heap_heappush)

lemma queue_length_le:
  "length (queue (remove_from_queue st x)) \<le> length (queue st)"
  "length (queue (enqueue st x)) \<le> Suc (length (queue st))"
  by (simp_all add: length_remove1)

lemma ring_inv_cong:
  "heap r' = heap r \<Longrightarrow> segments r' = segments r \<Longrightarrow> ring_inv r' = ring_inv r"
  by (simp add: ring_inv_def)

lemma ring_inv_queue_ops [simp]:
  "ring_inv (remove_from_queue st x) = ring_inv st"
  "ring_inv (enqueue st x) = ring_inv st"
  by (simp_all add: ring_inv_def)

lemma engine_inv_remove_from_queue:
  "engine_inv st \<Longrightarrow> engine_inv (remove_from_queue st x)"
proof -
  assume inv: "engine_inv st"
  then have "is_heap (seg_length (heap st)) (queue (remove_from_queue st x))"
    unfolding engine_inv_def by (intro is_heap_remove_from_queue) simp
  moreover have "set (queue (remove_from_queue st x)) \<subseteq> set (segments st)"
    using inv set_remove1_subset [of x "queue st"] unfolding engine_inv_def by auto
  ultimately show ?thesis
    using inv unfolding engine_inv_def by simp
qed

lemma engine_inv_enqueue:
  "engine_inv st \<Longrightarrow> x \<in> set (segments st) \<Longrightarrow> engine_inv (enqueue st x)"
proof -
  assume inv: "engine_inv st" and x: "x \<in> set (segments st)"
  then have "is_heap (seg_length (heap st)) (queue (enqueue st x))"
    unfolding engine_inv_def by (intro is_heap_enqueue) simp
  then show ?thesis
    using inv x unfolding engine_inv_def by simp
qed

text \<open>An edit keeps the queue in heap order when it moves no end point of a queued segment.\<close>

lemma engine_inv_edit:
  assumes "engine_inv st" "ring_inv st'" "queue st' = queue st"
    and "set (queue st) \<subseteq> set (segments st')"
    and "\<And>x. x \<in> set (queue st) \<Longrightarrow> sp (heap st' x) = sp (heap st x) \<and> ep (heap st' x) = ep (heap st x)"
  shows "engine_inv st'"
proof -
  have "is_heap (seg_length (heap st')) (queue st) = is_heap (seg_length (heap st)) (queue st)"
    by (rule is_heap_cong) (rule seg_length_cong, simp_all add: assms(5))
  with assms show ?thesis by (simp add: engine_inv_def)
qed

lemma popped_neighbours:
  assumes "popped st s"
  shows "prev_seg (heap st s) \<in> set (segments st)" "next_seg (heap st s) \<in> set (segments st)"
    "prev_seg (heap st s) \<noteq> s" "next_seg (heap st s) \<noteq> s"
    "prev_seg (heap st s) \<noteq> next_seg (heap st s)"
    "next_seg (heap st (prev_seg (heap st s))) = s" "prev_seg (heap st (next_seg (heap st s))) = s"
    "ep (heap st (prev_seg (heap st s))) = sp (heap st s)"
    "sp (heap st (next_seg (heap st s))) = ep (heap st s)"
proof -
  from assms have r: "ring_inv st" "s \<in> set (segments st)" "3 \<le> length (segments st)"
    by (simp_all add: popped_def engine_inv_def)
  from ring_neighbours [OF r(1,2)] r(3)
  show "prev_seg (heap st s) \<in> set (segments st)" "next_seg (heap st s) \<in> set (segments st)"
    "prev_seg (heap st s) \<noteq> s" "next_seg (heap st s) \<noteq> s"
    "prev_seg (heap st s) \<noteq> next_seg (heap st s)"
    "next_seg (heap st (prev_seg (heap st s))) = s" "prev_seg (heap st (next_seg (heap st s))) = s"
    "ep (heap st (prev_seg (heap st s))) = sp (heap st s)"
    "sp (heap st (next_seg (heap st s))) = ep (heap st s)"
    by (simp_all add: link_def)
qed

lemma remove_middle_point_popped:
  assumes "popped st s"
  defines "N \<equiv> next_seg (heap st s)"
  shows "engine_inv (remove_middle_point st s)"
    "segments (remove_middle_point st s) = remove1 s (segments st)"
    "set (queue (remove_middle_point st s)) = insert N (set (queue st))"
    "length (queue (remove_middle_point st s)) \<le> Suc (length (queue st))"
    "heap (remove_middle_point st s) = heap (Ring_merge st s)"
proof -
  from assms(1) have inv: "engine_inv st" and s: "s \<in> set (segments st)" "s \<notin> set (queue st)"
    by (simp_all add: popped_def)
  from inv have dq: "distinct (queue st)" and qs: "set (queue st) \<subseteq> set (segments st)"
    and ds: "distinct (segments st)"
    by (simp_all add: engine_inv_def ring_inv_def)
  note nb = popped_neighbours [OF assms(1), folded N_def]
  define st1 where "st1 = remove_from_queue st N"
  define st2 where "st2 = Ring_merge st1 s"
  have s1: "s \<in> set (segments st1)" using s by (simp add: st1_def)
  have n2: "next_seg (heap st2 s) = N"
    using Ring_merge_proj(3) [OF s1, of s] by (simp add: st2_def st1_def N_def)
  have rmp: "remove_middle_point st s = enqueue st2 N"
    using n2 by (simp add: remove_middle_point_def Let_def st1_def st2_def N_def)
  have inv1: "engine_inv st1" using inv by (simp add: st1_def engine_inv_remove_from_queue)
  have q1: "set (queue st1) = set (queue st) - {N}"
    using dq by (simp add: st1_def)
  have seg2: "segments st2 = remove1 s (segments st)"
    using Ring_merge_proj(5) [OF s1] by (simp add: st2_def st1_def)
  have inv2: "engine_inv st2"
  proof (rule engine_inv_edit [OF inv1])
    show "ring_inv st2" using inv1 by (simp add: st2_def engine_inv_def ring_inv_merge)
    show "queue st2 = queue st1" by (simp add: st2_def)
    show "set (queue st1) \<subseteq> set (segments st2)"
      using q1 qs ds s by (auto simp: seg2)
    fix x assume "x \<in> set (queue st1)"
    then have "x \<noteq> N" using q1 by simp
    then show "sp (heap st2 x) = sp (heap st1 x) \<and> ep (heap st2 x) = ep (heap st1 x)"
      using Ring_merge_proj(1,2) [OF s1, of x] by (simp add: st2_def st1_def N_def)
  qed
  have Nin: "N \<in> set (segments st2)" using nb(2,4) ds by (simp add: seg2)
  show "engine_inv (remove_middle_point st s)"
    unfolding rmp using inv2 Nin by (rule engine_inv_enqueue)
  show "segments (remove_middle_point st s) = remove1 s (segments st)"
    by (simp add: rmp seg2)
  show "set (queue (remove_middle_point st s)) = insert N (set (queue st))"
    using q1 by (auto simp: rmp st2_def)
  show "length (queue (remove_middle_point st s)) \<le> Suc (length (queue st))"
    using queue_length_le(1) [of st N] queue_length_le(2) [of st2 N]
    by (simp add: rmp st2_def st1_def del: remove_from_queue_simps(5) enqueue_simps(5))
  show "heap (remove_middle_point st s) = heap (Ring_merge st s)"
    using s by (simp add: rmp st2_def st1_def heap_Ring_merge)
qed

lemma join_segment_popped:
  assumes "popped st s"
  defines "P \<equiv> prev_seg (heap st s)" and "N \<equiv> next_seg (heap st s)"
  shows "engine_inv (join_segment st s q)"
    "segments (join_segment st s q) = remove1 s (segments st)"
    "set (queue (join_segment st s q)) = insert P (insert N (set (queue st)))"
    "length (queue (join_segment st s q)) \<le> Suc (Suc (length (queue st)))"
    "heap (join_segment st s q) = heap (Ring_remove st s q)"
proof -
  from assms(1) have inv: "engine_inv st" and s: "s \<in> set (segments st)" "s \<notin> set (queue st)"
    by (simp_all add: popped_def)
  from inv have dq: "distinct (queue st)" and qs: "set (queue st) \<subseteq> set (segments st)"
    and ds: "distinct (segments st)"
    by (simp_all add: engine_inv_def ring_inv_def)
  note nb = popped_neighbours [OF assms(1), folded P_def N_def]
  define st1 where "st1 = remove_from_queue st P"
  define st2 where "st2 = remove_from_queue st1 N"
  define st3 where "st3 = Ring_remove st2 s q"
  have s2: "s \<in> set (segments st2)" using s by (simp add: st2_def st1_def)
  have h2: "heap st2 = heap st" by (simp add: st2_def st1_def)
  have p3: "prev_seg (heap st3 s) = P" "next_seg (heap st3 s) = N"
    using Ring_remove_proj(3,4) [OF s2, of q s] by (simp_all add: st3_def h2 P_def N_def)
  have js: "join_segment st s q = enqueue (enqueue st3 P) N"
    using p3 by (simp add: join_segment_def Let_def st1_def st2_def st3_def P_def N_def)
  have inv2: "engine_inv st2"
    using inv by (simp add: st2_def st1_def engine_inv_remove_from_queue)
  have q2: "set (queue st2) = set (queue st) - {P, N}"
    using dq by (auto simp: st2_def st1_def)
  have seg3: "segments st3 = remove1 s (segments st)"
    using Ring_remove_proj(5) [OF s2] by (simp add: st3_def st2_def st1_def)
  have inv3: "engine_inv st3"
  proof (rule engine_inv_edit [OF inv2])
    show "ring_inv st3" using inv2 by (simp add: st3_def engine_inv_def ring_inv_remove)
    show "queue st3 = queue st2" by (simp add: st3_def)
    show "set (queue st2) \<subseteq> set (segments st3)"
      using q2 qs ds s by (auto simp: seg3)
    fix x assume "x \<in> set (queue st2)"
    then have "x \<noteq> N" "x \<noteq> P" using q2 by simp_all
    then show "sp (heap st3 x) = sp (heap st2 x) \<and> ep (heap st3 x) = ep (heap st2 x)"
      using Ring_remove_proj(1,2) [OF s2, of q x] by (simp add: st3_def h2 N_def P_def)
  qed
  have PN: "P \<in> set (segments st3)" "N \<in> set (segments st3)"
    using nb(1-4) ds by (simp_all add: seg3)
  have inv4: "engine_inv (enqueue st3 P)"
    using inv3 PN(1) by (rule engine_inv_enqueue)
  show "engine_inv (join_segment st s q)"
    unfolding js by (rule engine_inv_enqueue [OF inv4]) (simp add: PN(2))
  show "segments (join_segment st s q) = remove1 s (segments st)"
    by (simp add: js seg3)
  show "set (queue (join_segment st s q)) = insert P (insert N (set (queue st)))"
    using q2 by (auto simp: js st3_def)
  have "length (queue st3) \<le> length (queue st)"
    using queue_length_le(1) [of st P] queue_length_le(1) [of st1 N]
    by (simp add: st3_def st2_def st1_def del: remove_from_queue_simps(5))
  then show "length (queue (join_segment st s q)) \<le> Suc (Suc (length (queue st)))"
    using queue_length_le(2) [of st3 P] queue_length_le(2) [of "enqueue st3 P" N]
    by (simp add: js del: enqueue_simps(5))
  show "heap (join_segment st s q) = heap (Ring_remove st s q)"
    using s s2 by (simp add: js st3_def h2 heap_Ring_remove)
qed

lemma segment_regression_popped:
  assumes "popped st s"
  defines "P \<equiv> prev_seg (heap st s)" and "N \<equiv> next_seg (heap st s)"
  obtains st' where "segment_regression st s = Inr st'" "engine_inv st'"
    "segments st' = segments st"
    "set (queue st') = insert s (insert P (insert N (set (queue st))))"
    "length (queue st') \<le> length (queue st) + 3"
    "heap st' = heap (fst (Ring_update st s (fst (regression_ends (heap st) s))
                                            (snd (regression_ends (heap st) s))))"
proof -
  from assms(1) have inv: "engine_inv st" and s: "s \<in> set (segments st)" "s \<notin> set (queue st)"
    by (simp_all add: popped_def)
  from inv have dq: "distinct (queue st)" and qs: "set (queue st) \<subseteq> set (segments st)"
    and ds: "distinct (segments st)"
    by (simp_all add: engine_inv_def ring_inv_def)
  note nb = popped_neighbours [OF assms(1), folded P_def N_def]
  define q1 where "q1 = fst (regression_ends (heap st) s)"
  define q2 where "q2 = snd (regression_ends (heap st) s)"
  define st1 where "st1 = remove_from_queue st P"
  define st2 where "st2 = remove_from_queue st1 N"
  define st3 where "st3 = fst (Ring_update st2 s q1 q2)"
  have s2: "s \<in> set (segments st2)" using s by (simp add: st2_def st1_def)
  have h2: "heap st2 = heap st" by (simp add: st2_def st1_def)
  have p3: "prev_seg (heap st3 s) = P" "next_seg (heap st3 s) = N"
    using Ring_update_proj(3,4) [OF s2, of q1 q2 s] by (simp_all add: st3_def h2 P_def N_def)
  have sr: "segment_regression st s = Inr (enqueue (enqueue (enqueue st3 P) s) N)"
    using p3 s2
    by (simp add: segment_regression_def Let_def split_beta st1_def st2_def st3_def P_def N_def
        q1_def q2_def)
  have inv2: "engine_inv st2"
    using inv by (simp add: st2_def st1_def engine_inv_remove_from_queue)
  have qq: "set (queue st2) = set (queue st) - {P, N}"
    using dq by (auto simp: st2_def st1_def)
  have seg3: "segments st3 = segments st"
    by (simp add: st3_def st2_def st1_def)
  have inv3: "engine_inv st3"
  proof (rule engine_inv_edit [OF inv2])
    show "ring_inv st3" using inv2 by (simp add: st3_def engine_inv_def ring_inv_update)
    show "queue st3 = queue st2" by (simp add: st3_def)
    show "set (queue st2) \<subseteq> set (segments st3)"
      using qq qs by (auto simp: seg3)
    fix x assume "x \<in> set (queue st2)"
    then have "x \<noteq> N" "x \<noteq> P" "x \<noteq> s" using qq s by auto
    then show "sp (heap st3 x) = sp (heap st2 x) \<and> ep (heap st3 x) = ep (heap st2 x)"
      using Ring_update_proj(1,2) [OF s2, of q1 q2 x] by (simp add: st3_def h2 N_def P_def)
  qed
  have PN: "P \<in> set (segments st3)" "N \<in> set (segments st3)" "s \<in> set (segments st3)"
    using nb(1,2) s by (simp_all add: seg3)
  have inv4: "engine_inv (enqueue st3 P)"
    using inv3 PN(1) by (rule engine_inv_enqueue)
  have inv5: "engine_inv (enqueue (enqueue st3 P) s)"
    by (rule engine_inv_enqueue [OF inv4]) (simp add: PN(3))
  show thesis
  proof (rule that [OF sr])
    show "engine_inv (enqueue (enqueue (enqueue st3 P) s) N)"
      by (rule engine_inv_enqueue [OF inv5]) (simp add: PN(2))
    show "segments (enqueue (enqueue (enqueue st3 P) s) N) = segments st"
      by (simp add: seg3)
    show "set (queue (enqueue (enqueue (enqueue st3 P) s) N))
        = insert s (insert P (insert N (set (queue st))))"
      using qq by (auto simp: st3_def)
    have "length (queue st3) \<le> length (queue st)"
      using queue_length_le(1) [of st P] queue_length_le(1) [of st1 N]
      by (simp add: st3_def st2_def st1_def del: remove_from_queue_simps(5))
    then show "length (queue (enqueue (enqueue (enqueue st3 P) s) N)) \<le> length (queue st) + 3"
      using queue_length_le(2) [of st3 P] queue_length_le(2) [of "enqueue st3 P" s]
        queue_length_le(2) [of "enqueue (enqueue st3 P) s" N]
      by (simp del: enqueue_simps(5))
    show "heap (enqueue (enqueue (enqueue st3 P) s) N)
        = heap (fst (Ring_update st s (fst (regression_ends (heap st) s))
                                      (snd (regression_ends (heap st) s))))"
      using s s2 by (simp add: st3_def h2 heap_Ring_update q1_def q2_def)
  qed
qed

lemma engine_inv_update:
  assumes inv: "engine_inv st" and a: "a \<in> set (segments st)" "a \<notin> set (queue st)"
    and pc: "prev_seg (heap st a) \<in> set (queue st) \<Longrightarrow> p = sp (heap st a)"
    and nc: "next_seg (heap st a) \<in> set (queue st) \<Longrightarrow> q = ep (heap st a)"
  shows "engine_inv (fst (Ring_update st a p q))"
proof (rule engine_inv_edit [OF inv])
  from inv have r: "ring_inv st" by (simp add: engine_inv_def)
  show "ring_inv (fst (Ring_update st a p q))" using r by (rule ring_inv_update)
  show "queue (fst (Ring_update st a p q)) = queue st" by simp
  show "set (queue st) \<subseteq> set (segments (fst (Ring_update st a p q)))"
    using inv by (simp add: engine_inv_def)
  fix x assume x: "x \<in> set (queue st)"
  then have xa: "x \<noteq> a" using a by auto
  note l = ring_neighbours(3,4) [OF r a(1), unfolded link_def]
  show "sp (heap (fst (Ring_update st a p q)) x) = sp (heap st x)
      \<and> ep (heap (fst (Ring_update st a p q)) x) = ep (heap st x)"
  proof (intro conjI)
    show "sp (heap (fst (Ring_update st a p q)) x) = sp (heap st x)"
    proof (cases "x = next_seg (heap st a)")
      case True
      then have "prev_seg (heap st a) \<noteq> a" using l xa by auto
      moreover have "q = ep (heap st a)" using True x nc by simp
      ultimately show ?thesis using True l Ring_update_proj(1) [OF a(1), of p q x] by simp
    next
      case False
      then show ?thesis using xa Ring_update_proj(1) [OF a(1), of p q x] by simp
    qed
    show "ep (heap (fst (Ring_update st a p q)) x) = ep (heap st x)"
    proof (cases "x = prev_seg (heap st a)")
      case True
      then have "p = sp (heap st a)" using x pc by simp
      then show ?thesis using True l Ring_update_proj(2) [OF a(1), of p q x] by simp
    next
      case False
      then show ?thesis using xa Ring_update_proj(2) [OF a(1), of p q x] by simp
    qed
  qed
qed

lemma engine_inv_remove:
  assumes inv: "engine_inv st" and a: "a \<in> set (segments st)" "a \<notin> set (queue st)"
    and pc: "prev_seg (heap st a) \<in> set (queue st) \<Longrightarrow> q = sp (heap st a)"
    and nc: "next_seg (heap st a) \<in> set (queue st) \<Longrightarrow> q = ep (heap st a)"
  shows "engine_inv (Ring_remove st a q)"
proof (rule engine_inv_edit [OF inv])
  from inv have r: "ring_inv st" by (simp add: engine_inv_def)
  show "ring_inv (Ring_remove st a q)" using r by (rule ring_inv_remove)
  show "queue (Ring_remove st a q) = queue st" by simp
  show "set (queue st) \<subseteq> set (segments (Ring_remove st a q))"
    using inv a r by (auto simp: engine_inv_def Ring_remove_proj(5) ring_inv_def)
  fix x assume x: "x \<in> set (queue st)"
  note l = ring_neighbours(3,4) [OF r a(1), unfolded link_def]
  show "sp (heap (Ring_remove st a q) x) = sp (heap st x)
      \<and> ep (heap (Ring_remove st a q) x) = ep (heap st x)"
  proof (intro conjI)
    show "sp (heap (Ring_remove st a q) x) = sp (heap st x)"
      using x nc l Ring_remove_proj(1) [OF a(1), of q x] by auto
    show "ep (heap (Ring_remove st a q) x) = ep (heap st x)"
      using x pc l Ring_remove_proj(2) [OF a(1), of q x] by auto
  qed
qed

lemma popped_second_neighbours:
  assumes "popped st s"
  defines "P \<equiv> prev_seg (heap st s)" and "N \<equiv> next_seg (heap st s)"
  shows "prev_seg (heap st P) \<in> set (segments st)" "next_seg (heap st N) \<in> set (segments st)"
    "prev_seg (heap st P) \<noteq> P" "prev_seg (heap st P) \<noteq> s"
    "next_seg (heap st N) \<noteq> N" "next_seg (heap st N) \<noteq> s"
    "ep (heap st (prev_seg (heap st P))) = sp (heap st P)"
    "sp (heap st (next_seg (heap st N))) = ep (heap st N)"
    "next_seg (heap st (prev_seg (heap st P))) = P"
    "prev_seg (heap st (next_seg (heap st N))) = N"
proof -
  from assms(1) have r: "ring_inv st" "s \<in> set (segments st)" "3 \<le> length (segments st)"
    by (simp_all add: popped_def engine_inv_def)
  note nb = popped_neighbours [OF assms(1), folded P_def N_def]
  note nP = ring_neighbours [OF r(1) nb(1), unfolded link_def]
  note nN = ring_neighbours [OF r(1) nb(2), unfolded link_def]
  show "prev_seg (heap st P) \<in> set (segments st)" by (rule nP(1))
  show "next_seg (heap st N) \<in> set (segments st)" by (rule nN(2))
  show "prev_seg (heap st P) \<noteq> P" using nP(5) r(3) by simp
  show "next_seg (heap st N) \<noteq> N" using nN(5) r(3) by simp
  show "prev_seg (heap st P) \<noteq> s" using nP(6) r(3) nb(6) by auto
  show "next_seg (heap st N) \<noteq> s" using nN(6) r(3) nb(7) by auto
  show "ep (heap st (prev_seg (heap st P))) = sp (heap st P)" using nP(3) by simp
  show "sp (heap st (next_seg (heap st N))) = ep (heap st N)" using nN(4) by simp
  show "next_seg (heap st (prev_seg (heap st P))) = P" using nP(3) by simp
  show "prev_seg (heap st (next_seg (heap st N))) = N" using nN(4) by simp
qed

lemma translate_prev_inv:
  assumes pop: "popped st s"
    and qP: "prev_seg (heap st s) \<notin> set (queue st)" and qN: "next_seg (heap st s) \<notin> set (queue st)"
  shows "engine_inv (translate_prev st s)"
    "segments (translate_prev st s) = remove1 (prev_seg (heap st s)) (segments st)"
    "length (queue (translate_prev st s)) \<le> Suc (Suc (length (queue st)))"
proof -
  define P where "P = prev_seg (heap st s)"
  define N where "N = next_seg (heap st s)"
  from pop have inv: "engine_inv st" and s: "s \<in> set (segments st)" "s \<notin> set (queue st)"
    by (simp_all add: popped_def)
  from inv have ds: "distinct (segments st)" by (simp add: engine_inv_def ring_inv_def)
  note nb = popped_neighbours [OF pop, folded P_def N_def]
  note nb2 = popped_second_neighbours [OF pop, folded P_def N_def]
  define pp where "pp = (fst (ep (heap st s)) - (fst (ep (heap st P)) - fst (sp (heap st P))),
               snd (ep (heap st s)) - (snd (ep (heap st P)) - snd (sp (heap st P))))"
  define st3 where "st3 = fst (Ring_update st s (sp (heap st P)) pp)"
  define st4 where "st4 = fst (Ring_update st3 N pp (ep (heap st3 N)))"
  define st5 where "st5 = Ring_remove st4 P (sp (heap st4 s))"
  note u3 = Ring_update_proj [OF s(1), of "sp (heap st P)" pp, folded st3_def P_def N_def]
  have inv3: "engine_inv st3"
    unfolding st3_def using inv s by (rule engine_inv_update) (use qP qN in auto)
  have N3: "N \<in> set (segments st3)" using nb(2) by (simp add: st3_def)
  have q3: "queue st3 = queue st" by (simp add: st3_def)
  note u4 = Ring_update_proj [OF N3, of pp "ep (heap st3 N)", folded st4_def]
  have inv4: "engine_inv st4"
    unfolding st4_def using inv3 N3
    by (rule engine_inv_update) (use qN s(2) nb(7) in \<open>auto simp: q3 u3 N_def\<close>)
  have P4: "P \<in> set (segments st4)" using nb(1) by (simp add: st4_def st3_def)
  have q4: "queue st4 = queue st" by (simp add: st4_def q3)
  have ptr4: "prev_seg (heap st4 x) = prev_seg (heap st x)" "next_seg (heap st4 x) = next_seg (heap st x)" for x
    by (simp_all add: u4 u3)
  have sp4s: "sp (heap st4 s) = sp (heap st P)"
    using nb nb2(6) by (simp add: u4 u3)
  have sp4P: "sp (heap st4 P) = sp (heap st P)"
    using nb nb2(8) by (simp add: u4 u3)
  note r5 = Ring_remove_proj [OF P4, of "sp (heap st4 s)", folded st5_def]
  have inv5: "engine_inv st5"
    unfolding st5_def using inv4 P4
    by (rule engine_inv_remove) (use qP s(2) nb(6) sp4s sp4P in \<open>auto simp: q4 ptr4 P_def\<close>)
  have seg5: "segments st5 = remove1 P (segments st)" by (simp add: r5 st4_def st3_def)
  have n5: "next_seg (heap st5 s) = N"
    using nb2(4) by (simp add: r5 ptr4 P_def [symmetric] N_def)
  have n3: "next_seg (heap st3 s) = N" by (simp add: u3 N_def)
  have p4: "prev_seg (heap st4 s) = P" by (simp add: ptr4 P_def)
  have tp: "translate_prev st s = enqueue (enqueue st5 s) N"
    unfolding translate_prev_def Let_def
    unfolding P_def [symmetric]
    unfolding pp_def [symmetric]
    unfolding st3_def [symmetric]
    unfolding n3
    unfolding st4_def [symmetric]
    unfolding p4
    unfolding st5_def [symmetric]
    by (simp add: n5)
  have in5: "s \<in> set (segments st5)" "N \<in> set (segments st5)"
    using s(1) nb ds by (simp_all add: seg5)
  have inv6: "engine_inv (enqueue st5 s)" using inv5 in5(1) by (rule engine_inv_enqueue)
  show "engine_inv (translate_prev st s)"
    unfolding tp by (rule engine_inv_enqueue [OF inv6]) (simp add: in5(2))
  show "segments (translate_prev st s) = remove1 (prev_seg (heap st s)) (segments st)"
    by (simp add: tp seg5 P_def)
  have "queue st5 = queue st" by (simp add: st5_def q4)
  then show "length (queue (translate_prev st s)) \<le> Suc (Suc (length (queue st)))"
    using queue_length_le(2) [of st5 s] queue_length_le(2) [of "enqueue st5 s" N]
    by (simp add: tp del: enqueue_simps(5))
qed

lemma translate_next_inv:
  assumes pop: "popped st s"
    and qP: "prev_seg (heap st s) \<notin> set (queue st)" and qN: "next_seg (heap st s) \<notin> set (queue st)"
  shows "engine_inv (translate_next st s)"
    "segments (translate_next st s) = remove1 (next_seg (heap st s)) (segments st)"
    "length (queue (translate_next st s)) \<le> Suc (Suc (length (queue st)))"
proof -
  define P where "P = prev_seg (heap st s)"
  define N where "N = next_seg (heap st s)"
  from pop have inv: "engine_inv st" and s: "s \<in> set (segments st)" "s \<notin> set (queue st)"
    by (simp_all add: popped_def)
  from inv have ds: "distinct (segments st)" by (simp add: engine_inv_def ring_inv_def)
  note nb = popped_neighbours [OF pop, folded P_def N_def]
  note nb2 = popped_second_neighbours [OF pop, folded P_def N_def]
  define pp where "pp = (fst (sp (heap st s)) + (fst (ep (heap st N)) - fst (sp (heap st N))),
               snd (sp (heap st s)) + (snd (ep (heap st N)) - snd (sp (heap st N))))"
  define st3 where "st3 = fst (Ring_update st P (sp (heap st P)) pp)"
  define st4 where "st4 = fst (Ring_update st3 s pp (ep (heap st3 N)))"
  define st5 where "st5 = Ring_remove st4 N (ep (heap st4 s))"
  note u3 = Ring_update_proj [OF nb(1), of "sp (heap st P)" pp, folded st3_def]
  have inv3: "engine_inv st3"
    unfolding st3_def using inv nb(1) qP [folded P_def]
    by (rule engine_inv_update) (use s(2) nb(6) in auto)
  have s3: "s \<in> set (segments st3)" using s(1) by (simp add: st3_def)
  have q3: "queue st3 = queue st" by (simp add: st3_def)
  note u4 = Ring_update_proj [OF s3, of pp "ep (heap st3 N)", folded st4_def]
  have inv4: "engine_inv st4"
    unfolding st4_def using inv3 s3
    by (rule engine_inv_update) (use qN qP s(2) in \<open>auto simp: q3 u3 N_def P_def\<close>)
  have N4: "N \<in> set (segments st4)" using nb(2) by (simp add: st4_def st3_def)
  have q4: "queue st4 = queue st" by (simp add: st4_def q3)
  have ptr4: "prev_seg (heap st4 x) = prev_seg (heap st x)" "next_seg (heap st4 x) = next_seg (heap st x)" for x
    by (simp_all add: u4 u3)
  have ep4s: "ep (heap st4 s) = ep (heap st3 N)"
    using nb by (simp add: u4 u3 P_def [symmetric])
  have ep4N: "ep (heap st4 N) = ep (heap st3 N)"
    using nb by (simp add: u4 u3 P_def [symmetric])
  note r5 = Ring_remove_proj [OF N4, of "ep (heap st4 s)", folded st5_def]
  have inv5: "engine_inv st5"
    unfolding st5_def using inv4 N4
    by (rule engine_inv_remove) (use qN s(2) nb(7) ep4s ep4N in \<open>auto simp: q4 ptr4 N_def\<close>)
  have seg5: "segments st5 = remove1 N (segments st)" by (simp add: r5 st4_def st3_def)
  have n5: "prev_seg (heap st5 s) = P"
    using nb2(6) by (simp add: r5 ptr4 N_def [symmetric] P_def)
  have n3: "next_seg (heap st3 s) = N" by (simp add: u3 N_def)
  have p4: "next_seg (heap st4 s) = N" by (simp add: ptr4 N_def)
  have tp: "translate_next st s = enqueue (enqueue st5 s) P"
    unfolding translate_next_def Let_def
    unfolding N_def [symmetric]
    unfolding pp_def [symmetric]
    unfolding P_def [symmetric]
    unfolding st3_def [symmetric]
    unfolding n3
    unfolding st4_def [symmetric]
    unfolding p4
    unfolding st5_def [symmetric]
    by (simp add: n5)
  have in5: "s \<in> set (segments st5)" "P \<in> set (segments st5)"
    using s(1) nb ds by (simp_all add: seg5)
  have inv6: "engine_inv (enqueue st5 s)" using inv5 in5(1) by (rule engine_inv_enqueue)
  show "engine_inv (translate_next st s)"
    unfolding tp by (rule engine_inv_enqueue [OF inv6]) (simp add: in5(2))
  show "segments (translate_next st s) = remove1 (next_seg (heap st s)) (segments st)"
    by (simp add: tp seg5 N_def)
  have "queue st5 = queue st" by (simp add: st5_def q4)
  then show "length (queue (translate_next st s)) \<le> Suc (Suc (length (queue st)))"
    using queue_length_le(2) [of st5 s] queue_length_le(2) [of "enqueue st5 s" P]
    by (simp add: tp del: enqueue_simps(5))
qed

lemma translate_both_inv:
  assumes pop: "popped st s"
    and qP: "prev_seg (heap st s) \<notin> set (queue st)" and qN: "next_seg (heap st s) \<notin> set (queue st)"
  shows "engine_inv (translate_both st s)"
    "segments (translate_both st s)
       = remove1 (prev_seg (heap st s)) (remove1 (next_seg (heap st s)) (segments st))"
    "length (queue (translate_both st s)) \<le> Suc (length (queue st))"
proof -
  define P where "P = prev_seg (heap st s)"
  define N where "N = next_seg (heap st s)"
  from pop have inv: "engine_inv st" and s: "s \<in> set (segments st)" "s \<notin> set (queue st)"
    by (simp_all add: popped_def)
  from inv have ds: "distinct (segments st)" by (simp add: engine_inv_def ring_inv_def)
  note nb = popped_neighbours [OF pop, folded P_def N_def]
  note nb2 = popped_second_neighbours [OF pop, folded P_def N_def]
  define st3 where "st3 = fst (Ring_update st s (sp (heap st P)) (ep (heap st N)))"
  define st4 where "st4 = Ring_remove st3 N (ep (heap st3 s))"
  define st5 where "st5 = Ring_remove st4 P (sp (heap st4 s))"
  note u3 = Ring_update_proj [OF s(1), of "sp (heap st P)" "ep (heap st N)", folded st3_def P_def N_def]
  have inv3: "engine_inv st3"
    unfolding st3_def using inv s by (rule engine_inv_update) (use qP qN in auto)
  have N3: "N \<in> set (segments st3)" using nb(2) by (simp add: st3_def)
  have q3: "queue st3 = queue st" by (simp add: st3_def)
  note r4 = Ring_remove_proj [OF N3, of "ep (heap st3 s)", folded st4_def]
  have inv4: "engine_inv st4"
    unfolding st4_def using inv3 N3
    by (rule engine_inv_remove) (use qN [folded N_def] s(2) nb(3,4,5,7) in \<open>auto simp: q3 u3\<close>)
  have seg4: "segments st4 = remove1 N (segments st)" by (simp add: r4 st3_def)
  have P4: "P \<in> set (segments st4)" using nb ds by (simp add: seg4)
  have q4: "queue st4 = queue st" by (simp add: st4_def q3)
  have p4: "prev_seg (heap st4 s) = P"
    using nb2(6) by (simp add: r4 u3 P_def)
  have n4P: "next_seg (heap st4 P) = s"
    using nb by (simp add: r4 u3)
  have sp4': "prev_seg (heap st4 P) \<noteq> s \<Longrightarrow> sp (heap st4 s) = sp (heap st4 P)"
    using nb nb2 by (simp add: r4 u3 split: if_splits)
  have sp4: "prev_seg (heap st4 P) \<in> set (queue st) \<Longrightarrow> sp (heap st4 s) = sp (heap st4 P)"
    using sp4' s(2) by blast
  note r5 = Ring_remove_proj [OF P4, of "sp (heap st4 s)", folded st5_def]
  have inv5: "engine_inv st5"
    unfolding st5_def using inv4 P4
    by (rule engine_inv_remove) (use qP s(2) n4P sp4 in \<open>auto simp: q4 P_def\<close>)
  have seg5: "segments st5 = remove1 P (remove1 N (segments st))" by (simp add: r5 seg4)
  have n3: "next_seg (heap st3 s) = N" by (simp add: u3 N_def)
  have tp: "translate_both st s = enqueue st5 s"
    unfolding translate_both_def Let_def
    unfolding P_def [symmetric] N_def [symmetric]
    unfolding st3_def [symmetric]
    unfolding n3
    unfolding st4_def [symmetric]
    unfolding p4
    unfolding st5_def [symmetric]
    by simp
  have in5: "s \<in> set (segments st5)"
    using s(1) nb ds by (simp add: seg5)
  show "engine_inv (translate_both st s)"
    unfolding tp using inv5 in5 by (rule engine_inv_enqueue)
  show "segments (translate_both st s)
       = remove1 (prev_seg (heap st s)) (remove1 (next_seg (heap st s)) (segments st))"
    by (simp add: tp seg5 P_def N_def)
  have "queue st5 = queue st" by (simp add: st5_def q4)
  then show "length (queue (translate_both st s)) \<le> Suc (length (queue st))"
    using queue_length_le(2) [of st5 s]
    by (simp add: tp del: enqueue_simps(5))
qed

lemma popped_remove_from_queue: "popped st s \<Longrightarrow> popped (remove_from_queue st x) s"
  using notin_set_remove1 [of s "queue st" x]
  by (auto simp: popped_def engine_inv_remove_from_queue)

lemma translate_segment_eq:
  "translate_segment st s =
     (let st1 = remove_from_queue st (prev_seg (heap st s));
          st2 = remove_from_queue st1 (next_seg (heap st1 s));
          h = heap st2
      in if seg_length h (prev_seg (h s)) < seg_length h (next_seg (h s)) then translate_prev st2 s
         else if seg_length h (prev_seg (h s)) > seg_length h (next_seg (h s)) then translate_next st2 s
         else translate_both st2 s)"
  by (simp add: translate_segment_def Let_def)

lemma translate_segment_popped:
  assumes pop: "popped st s"
  shows "engine_inv (translate_segment st s)"
    "set (segments (translate_segment st s)) \<subseteq> set (segments st)"
    "length (segments (translate_segment st s)) < length (segments st)"
    "segments (translate_segment st s) \<noteq> []"
    "2 * length (segments (translate_segment st s)) + length (queue (translate_segment st s))
       \<le> 2 * length (segments st) + length (queue st)"
proof -
  define P where "P = prev_seg (heap st s)"
  define N where "N = next_seg (heap st s)"
  define st2 where "st2 = remove_from_queue (remove_from_queue st P) N"
  from pop have inv: "engine_inv st" and s: "s \<in> set (segments st)" and n: "3 \<le> length (segments st)"
    by (simp_all add: popped_def)
  from inv have dq: "distinct (queue st)" and ds: "distinct (segments st)"
    by (simp_all add: engine_inv_def ring_inv_def)
  note nb = popped_neighbours [OF pop, folded P_def N_def]
  have pop2: "popped st2 s"
    unfolding st2_def by (intro popped_remove_from_queue pop)
  have h2: "heap st2 = heap st" "segments st2 = segments st" by (simp_all add: st2_def)
  have q2: "prev_seg (heap st2 s) \<notin> set (queue st2)" "next_seg (heap st2 s) \<notin> set (queue st2)"
    using dq by (auto simp: st2_def P_def N_def)
  have l2: "length (queue st2) \<le> length (queue st)"
    using queue_length_le(1) [of st P] queue_length_le(1) [of "remove_from_queue st P" N]
    by (simp add: st2_def del: remove_from_queue_simps(5))
  note a = translate_prev_inv [OF pop2 q2] and b = translate_next_inv [OF pop2 q2]
    and c = translate_both_inv [OF pop2 q2]
  have lP: "length (remove1 P (segments st)) = length (segments st) - 1"
    and lN: "length (remove1 N (segments st)) = length (segments st) - 1"
    and lPN: "length (remove1 P (remove1 N (segments st))) = length (segments st) - 2"
    using nb(1,2,5) ds by (simp_all add: length_remove1)
  have sub: "set (remove1 P (remove1 N (segments st))) \<subseteq> set (segments st)"
    using ds by auto
  define A where "A \<longleftrightarrow> seg_length (heap st) P < seg_length (heap st) N"
  define B where "B \<longleftrightarrow> seg_length (heap st) P > seg_length (heap st) N"
  have eq: "translate_segment st s =
      (if A then translate_prev st2 s else if B then translate_next st2 s else translate_both st2 s)"
    by (simp add: translate_segment_eq Let_def st2_def P_def N_def A_def B_def)
  consider (prev) "translate_segment st s = translate_prev st2 s"
    | (nxt) "translate_segment st s = translate_next st2 s"
    | (both) "translate_segment st s = translate_both st2 s"
    by (cases A; cases B) (use eq in auto)
  then have "engine_inv (translate_segment st s)
      \<and> set (segments (translate_segment st s)) \<subseteq> set (segments st)
      \<and> length (segments (translate_segment st s)) < length (segments st)
      \<and> segments (translate_segment st s) \<noteq> []
      \<and> 2 * length (segments (translate_segment st s)) + length (queue (translate_segment st s))
       \<le> 2 * length (segments st) + length (queue st)"
  proof cases
    case prev
    have "segments (translate_prev st2 s) \<noteq> []"
      using lP n a(2) by (auto simp: h2 P_def)
    then show ?thesis
      using a lP l2 n set_remove1_subset [of P "segments st"] unfolding prev h2 P_def [symmetric]
      by auto
  next
    case nxt
    have "segments (translate_next st2 s) \<noteq> []"
      using lN n b(2) by (auto simp: h2 N_def)
    then show ?thesis
      using b lN l2 n set_remove1_subset [of N "segments st"] unfolding nxt h2 N_def [symmetric]
      by auto
  next
    case both
    have "segments (translate_both st2 s) \<noteq> []"
      using lPN n c(2) by (auto simp: h2 P_def N_def)
    then show ?thesis
      using c lPN l2 n sub unfolding both h2 P_def [symmetric] N_def [symmetric]
      by auto
  qed
  then show "engine_inv (translate_segment st s)"
    "set (segments (translate_segment st s)) \<subseteq> set (segments st)"
    "length (segments (translate_segment st s)) < length (segments st)"
    "segments (translate_segment st s) \<noteq> []"
    "2 * length (segments (translate_segment st s)) + length (queue (translate_segment st s))
       \<le> 2 * length (segments st) + length (queue st)"
    by simp_all
qed

lemma shrinks_remove_middle_point:
  assumes "popped st s"
  shows "shrinks st (remove_middle_point st s)"
proof -
  from assms have s: "s \<in> set (segments st)" and n: "3 \<le> length (segments st)"
    and ds: "distinct (segments st)"
    by (simp_all add: popped_def engine_inv_def ring_inv_def)
  note r = remove_middle_point_popped [OF assms]
  have "length (remove1 s (segments st)) = length (segments st) - 1"
    using s by (simp add: length_remove1)
  moreover from this n have "remove1 s (segments st) \<noteq> []" by auto
  ultimately show ?thesis
    using r(1,2,4) n set_remove1_subset [of s "segments st"] unfolding shrinks_def by auto
qed

lemma shrinks_join_segment:
  assumes "popped st s"
  shows "shrinks st (join_segment st s q)"
proof -
  from assms have s: "s \<in> set (segments st)" and n: "3 \<le> length (segments st)"
    by (simp_all add: popped_def)
  note r = join_segment_popped [OF assms, of q]
  have "length (remove1 s (segments st)) = length (segments st) - 1"
    using s by (simp add: length_remove1)
  moreover from this n have "remove1 s (segments st) \<noteq> []" by auto
  ultimately show ?thesis
    using r(1,2,4) n set_remove1_subset [of s "segments st"] unfolding shrinks_def by auto
qed

lemma shrinks_translate_segment: "popped st s \<Longrightarrow> shrinks st (translate_segment st s)"
  using translate_segment_popped [of st s] by (simp add: shrinks_def)

lemma shrinks_prune_prev:
  assumes "popped st s"
  defines "st1 \<equiv> remove_from_queue st (prev_seg (heap st s))"
  shows "shrinks st (remove_middle_point st1 (prev_seg (heap st1 s)))"
proof -
  define P where "P = prev_seg (heap st s)"
  note nb = popped_neighbours [OF assms(1), folded P_def]
  from assms(1) have dq: "distinct (queue st)" by (simp add: popped_def engine_inv_def)
  have "popped st1 s" unfolding st1_def by (intro popped_remove_from_queue assms(1))
  then have "popped st1 P"
    using nb(1) dq by (simp add: popped_def st1_def P_def)
  then have "shrinks st1 (remove_middle_point st1 P)" by (rule shrinks_remove_middle_point)
  moreover have "length (queue st1) \<le> length (queue st)"
    unfolding st1_def by (rule queue_length_le)
  ultimately show ?thesis
    by (simp add: shrinks_def st1_def P_def del: remove_from_queue_simps(5))
qed

lemma shrinks_join_or_prune: "popped st s \<Longrightarrow> shrinks st (join_or_prune P st s)"
  using shrinks_join_segment [of st s] shrinks_prune_prev [of st s]
    shrinks_remove_middle_point [of st s]
  by (simp add: join_or_prune_def Let_def split: option.split)

lemma dispatch_popped:
  assumes pop: "popped st s"
  obtains st' where "dispatch P st s = Inr st'" "engine_inv st'" "segments st' \<noteq> []"
    "set (segments st') \<subseteq> set (segments st)"
    "regresses P st s \<Longrightarrow> segments st' = segments st \<and> length (queue st') \<le> length (queue st) + 3"
    "\<not> regresses P st s \<Longrightarrow>
       2 * length (segments st') + length (queue st') \<le> 2 * length (segments st) + length (queue st)"
proof (cases "regresses P st s")
  case True
  from segment_regression_popped [OF pop] obtain st' where
    r: "segment_regression st s = Inr st'" "engine_inv st'" "segments st' = segments st"
      "length (queue st') \<le> length (queue st) + 3"
    by metis
  from pop have "segments st \<noteq> []" by (auto simp: popped_def)
  moreover have "dispatch P st s = Inr st'"
    using True r(1)
    by (auto simp: dispatch_def regresses_def conditional_segment_regression_def Let_def)
  ultimately show ?thesis
    using True r by (intro that [of st']) simp_all
next
  case False
  from pop have inv: "engine_inv st" and ne: "segments st \<noteq> []" by (auto simp: popped_def)
  have "\<exists>st'. dispatch P st s = Inr st' \<and> (st' = st \<or> shrinks st st')"
    using False shrinks_remove_middle_point [OF pop] shrinks_translate_segment [OF pop]
      shrinks_join_or_prune [OF pop, of P] shrinks_prune_prev [OF pop]
    by (auto simp: dispatch_def regresses_def conditional_segment_regression_def Let_def
        split: if_splits)
  then obtain st' where d: "dispatch P st s = Inr st'" "st' = st \<or> shrinks st st'" by blast
  show ?thesis
    using d inv ne False by (intro that [of st']) (auto simp: shrinks_def)
qed

lemma regresses_queue [simp]: "regresses P (st\<lparr>queue := q\<rparr>) s = regresses P st s"
  by (simp add: regresses_def)

lemma heappop_popped:
  assumes inv: "engine_inv st" and c: "loop_cond st"
  obtains q where "heappop (seg_lt (heap st)) (queue st) = Inr (queue st ! 0, q)"
    "popped (st\<lparr>queue := q\<rparr>) (queue st ! 0)" "Suc (length q) = length (queue st)"
    "set (queue st) = insert (queue st ! 0) (set q)"
    "\<forall>x\<in>set (queue st). seg_length (heap st) (queue st ! 0) \<le> seg_length (heap st) x"
proof -
  from c have ne: "queue st \<noteq> []" and n: "3 \<le> length (segments st)" by (auto simp: loop_cond_def)
  from inv have r: "ring_inv st" and dq: "distinct (queue st)"
    and qs: "set (queue st) \<subseteq> set (segments st)" and hp: "is_heap (seg_length (heap st)) (queue st)"
    by (simp_all add: engine_inv_def)
  from heappop_nonempty [OF ne, of "seg_lt (heap st)"] obtain q where
    q: "heappop (seg_lt (heap st)) (queue st) = Inr (queue st ! 0, q)"
      "mset (queue st) = add_mset (queue st ! 0) (mset q)"
    by blast
  from q(2) have m: "mset (queue st) = mset (queue st ! 0 # q)" by simp
  have s: "set (queue st) = insert (queue st ! 0) (set q)"
    using mset_eq_setD [OF m] by simp
  have d: "queue st ! 0 \<notin> set q \<and> distinct q"
    using mset_eq_imp_distinct_iff [OF m] dq by simp
  have l: "Suc (length q) = length (queue st)"
    using mset_eq_length [OF m] by simp
  have hq: "is_heap (seg_length (heap st)) q"
    using hp q(1) unfolding seg_lt_eq by (rule is_heap_heappop)
  have "ring_inv (st\<lparr>queue := q\<rparr>)" using r by (simp add: ring_inv_def)
  then have "popped (st\<lparr>queue := q\<rparr>) (queue st ! 0)"
    using d s qs hq n by (auto simp: popped_def engine_inv_def)
  moreover have "\<forall>x\<in>set (queue st). seg_length (heap st) (queue st ! 0) \<le> seg_length (heap st) x"
    using is_heap_min [OF hp] by (auto simp: in_set_conv_nth)
  ultimately show ?thesis using q(1) l s by (intro that [of q])
qed

lemma loop_body_inv:
  assumes inv: "engine_inv st" and c: "loop_cond st"
  obtains st' where "loop_body P st = Inr st'" "engine_inv st'" "segments st' \<noteq> []"
    "set (segments st') \<subseteq> set (segments st)"
    "regresses P st (queue st ! 0) \<Longrightarrow>
       segments st' = segments st \<and> length (queue st') \<le> length (queue st) + 2"
    "\<not> regresses P st (queue st ! 0) \<Longrightarrow>
       2 * length (segments st') + length (queue st') < 2 * length (segments st) + length (queue st)"
proof -
  from heappop_popped [OF inv c] obtain q where
    q: "heappop (seg_lt (heap st)) (queue st) = Inr (queue st ! 0, q)"
      "popped (st\<lparr>queue := q\<rparr>) (queue st ! 0)" "Suc (length q) = length (queue st)"
    by metis
  from dispatch_popped [OF q(2), of P] obtain st' where
    d: "dispatch P (st\<lparr>queue := q\<rparr>) (queue st ! 0) = Inr st'" "engine_inv st'" "segments st' \<noteq> []"
      "set (segments st') \<subseteq> set (segments (st\<lparr>queue := q\<rparr>))"
      "regresses P (st\<lparr>queue := q\<rparr>) (queue st ! 0) \<Longrightarrow>
         segments st' = segments (st\<lparr>queue := q\<rparr>)
         \<and> length (queue st') \<le> length (queue (st\<lparr>queue := q\<rparr>)) + 3"
      "\<not> regresses P (st\<lparr>queue := q\<rparr>) (queue st ! 0) \<Longrightarrow>
         2 * length (segments st') + length (queue st')
         \<le> 2 * length (segments (st\<lparr>queue := q\<rparr>)) + length (queue (st\<lparr>queue := q\<rparr>))"
    by metis
  have "loop_body P st = Inr st'" using q(1) d(1) by (simp add: loop_body_def)
  then show ?thesis
    using d(2-6) q(3) by (intro that [of st']) auto
qed

lemma chain_upt:
  "i < m \<Longrightarrow> (\<And>j. i \<le> j \<Longrightarrow> j < m \<Longrightarrow> link h j (if Suc j < m then Suc j else b)) \<Longrightarrow>
   chain h [i..<m] b"
proof (induction "m - i" arbitrary: i)
  case 0
  then show ?case by simp
next
  case (Suc k)
  show ?case
  proof (cases "Suc i < m")
    case True
    then have u: "[i..<m] = i # Suc i # [Suc (Suc i)..<m]"
      by (simp add: upt_conv_Cons)
    have "chain h [Suc i..<m] b"
      using Suc.hyps(1) [of "Suc i"] Suc.hyps(2) True Suc.prems(2) by simp
    moreover have "[Suc i..<m] = Suc i # [Suc (Suc i)..<m]"
      using True by (simp add: upt_conv_Cons)
    moreover have "link h i (Suc i)" using Suc.prems(2) [of i] True by simp
    ultimately show ?thesis using u by simp
  next
    case False
    with Suc.prems(1) have "[i..<m] = [i]" by (simp add: upt_conv_Cons)
    then show ?thesis using Suc.prems(2) [of i] Suc.prems(1) False by simp
  qed
qed

lemma Ring_init_inv:
  assumes "3 \<le> length cs" "hd cs = last cs"
  obtains r where "Ring_init cs = Inr r" "ring_inv r" "segments r = [0..<length cs - 1]"
proof -
  define m where "m = length cs - 1"
  define h where "h = Ring_links cs"
  from assms(1) have m: "2 \<le> m" "length cs = Suc m" by (simp_all add: m_def)
  have cs: "cs \<noteq> []" using assms(1) by auto
  have closed: "cs ! m = cs ! 0"
    using assms(2) cs m by (simp add: hd_conv_nth last_conv_nth)
  have ri: "Ring_init cs = Inr \<lparr>heap = h, segments = [0..<m]\<rparr>"
    using m by (simp add: Ring_init_def Let_def m_def [symmetric] h_def)
  have hh: "h = (\<lambda>i. \<lparr>sp = cs ! i, ep = cs ! (i + 1),
                     prev_seg = (if i < m - 1 then (if i = 0 then m - 1 else i - 1) else m - 2),
                     next_seg = (if i < m - 1 then i + 1 else 0)\<rparr>)"
    unfolding h_def Ring_links_def Let_def m_def ..
  have "chain h [0..<m] 0"
  proof (rule chain_upt)
    show "0 < m" using m by simp
    fix j assume j: "0 \<le> j" "j < m"
    show "link h j (if Suc j < m then Suc j else 0)"
    proof (cases "Suc j < m")
      case True
      then show ?thesis using m by (auto simp: link_def hh)
    next
      case False
      with j have "Suc j = m" by simp
      then show ?thesis using m closed by (auto simp: link_def hh)
    qed
  qed
  moreover have "hd [0..<m] = 0" using m by (simp add: upt_conv_Cons)
  ultimately have "ring_inv \<lparr>heap = h, segments = [0..<m]\<rparr>"
    by (simp add: ring_inv_def)
  then show ?thesis using ri by (intro that [of "\<lparr>heap = h, segments = [0..<m]\<rparr>"]) (simp_all add: m_def)
qed

lemma fold_enqueue_inv:
  "engine_inv st \<Longrightarrow> set xs \<subseteq> set (segments st) \<Longrightarrow>
   engine_inv (fold (\<lambda>seg st. enqueue st seg) xs st)
   \<and> heap (fold (\<lambda>seg st. enqueue st seg) xs st) = heap st
   \<and> segments (fold (\<lambda>seg st. enqueue st seg) xs st) = segments st
   \<and> set (queue (fold (\<lambda>seg st. enqueue st seg) xs st)) = set xs \<union> set (queue st)"
proof (induction xs arbitrary: st)
  case Nil
  then show ?case by simp
next
  case (Cons x xs)
  have "engine_inv (enqueue st x)" using Cons.prems by (intro engine_inv_enqueue) simp_all
  from Cons.IH [OF this] Cons.prems(2) show ?case by auto
qed

lemma init_state_inv:
  assumes "3 \<le> length cs" "hd cs = last cs"
  obtains st where "init_state cs = Inr st" "engine_inv st" "segments st = [0..<length cs - 1]"
    "set (queue st) = set (segments st)"
proof -
  from Ring_init_inv [OF assms] obtain r where
    r: "Ring_init cs = Inr r" "ring_inv r" "segments r = [0..<length cs - 1]"
    by blast
  define st0 :: "point state" where "st0 = \<lparr>heap = heap r, segments = segments r, queue = []\<rparr>"
  have "engine_inv st0"
    using r(2) by (simp add: engine_inv_def st0_def ring_inv_def is_heap_def)
  from fold_enqueue_inv [OF this, of "segments r"]
  have f: "engine_inv (fold (\<lambda>seg st. enqueue st seg) (segments r) st0)"
    "segments (fold (\<lambda>seg st. enqueue st seg) (segments r) st0) = segments r"
    "set (queue (fold (\<lambda>seg st. enqueue st seg) (segments r) st0)) = set (segments r)"
    by (simp_all add: st0_def)
  have "map (\<lambda>(x, y). (x, y)) cs = cs" by (induction cs) auto
  then have "init_state cs = Inr (fold (\<lambda>seg st. enqueue st seg) (segments r) st0)"
    using r(1) by (simp add: init_state_def st0_def)
  moreover have "set (queue (fold (\<lambda>seg st. enqueue st seg) (segments r) st0))
      = set (segments (fold (\<lambda>seg st. enqueue st seg) (segments r) st0))"
    using f(2,3) by simp
  moreover have "segments (fold (\<lambda>seg st. enqueue st seg) (segments r) st0) = [0..<length cs - 1]"
    using f(2) r(3) by simp
  ultimately show ?thesis using f(1) by (blast intro: that)
qed

lemma reachable_inv:
  assumes "hd cs = last cs" "reachable P cs st"
  shows "engine_inv st \<and> segments st \<noteq> []"
  using assms(2)
proof (induction rule: reachable.induct)
  case (reachable_init st)
  have "map (\<lambda>(x, y). (x, y)) cs = cs" by (induction cs) auto
  with reachable_init have "3 \<le> length cs"
    by (auto simp: init_state_def Ring_init_def Let_def split: if_splits)
  from init_state_inv [OF this assms(1)] obtain st0 where
    st0: "init_state cs = Inr st0" "engine_inv st0" "segments st0 = [0..<length cs - 1]"
    by blast
  from st0(1) reachable_init have "st = st0" by simp
  moreover have "[0..<length cs - 1] \<noteq> []" using \<open>3 \<le> length cs\<close> by simp
  ultimately show ?case using st0 by simp
next
  case (reachable_step st st')
  then have "engine_inv st" by simp
  from loop_body_inv [OF this reachable_step(2), of P] obtain st'' where
    "loop_body P st = Inr st''" "engine_inv st''" "segments st'' \<noteq> []"
    by blast
  with reachable_step(3) show ?case by simp
qed

lemma chain_trace:
  "chain h (x # xs) b \<Longrightarrow>
   trace h x (Suc (length xs)) = x # xs \<and> ((\<lambda>a. next_seg (h a)) ^^ Suc (length xs)) x = b"
proof (induction xs arbitrary: x)
  case Nil
  then show ?case by (simp add: link_def)
next
  case (Cons y ys)
  then have l: "link h x y" and c: "chain h (y # ys) b" by simp_all
  let ?f = "\<lambda>a. next_seg (h a)"
  have "(?f ^^ Suc (length (y # ys))) x = (?f ^^ Suc (length ys)) (?f x)"
    using funpow_Suc_right [of "Suc (length ys)" ?f] by (simp del: funpow.simps)
  with Cons.IH [OF c] l show ?case
    by (simp add: link_def del: funpow.simps)
qed

lemma ring_trace:
  assumes "ring_inv r" "s \<in> set (segments r)"
  shows "distinct (trace (heap r) s (length (segments r)))"
    "set (trace (heap r) s (length (segments r))) = set (segments r)"
    "((\<lambda>a. next_seg (heap r a)) ^^ length (segments r)) s = s"
proof -
  from assms have d: "distinct (segments r)" by (simp add: ring_inv_def)
  from ring_normal_form [OF d assms(2)] obtain zs where zs: "distinct (s # zs)"
    "set (s # zs) = set (segments r)" "Suc (length zs) = length (segments r)"
    "\<And>h :: 'a store. chain h (segments r) (hd (segments r)) \<longleftrightarrow> chain h (s # zs) s"
    by metis
  from assms(1) zs(4) have c: "chain (heap r) (s # zs) s" by (simp add: ring_inv_def)
  from chain_trace [OF c] zs(3) have t: "trace (heap r) s (length (segments r)) = s # zs"
    and f: "((\<lambda>a. next_seg (heap r a)) ^^ length (segments r)) s = s"
    by simp_all
  show "distinct (trace (heap r) s (length (segments r)))" using t zs(1) by simp
  show "set (trace (heap r) s (length (segments r))) = set (segments r)" using t zs(2) by simp
  show "((\<lambda>a. next_seg (heap r a)) ^^ length (segments r)) s = s" by (rule f)
qed

lemma init_state_total:
  assumes "3 \<le> length cs" "hd cs = last cs"
  shows "init_state cs = Inr (projr (init_state cs))" "engine_inv (projr (init_state cs))"
    "segments (projr (init_state cs)) = [0..<length cs - 1]"
    "set (queue (projr (init_state cs))) = set (segments (projr (init_state cs)))"
proof -
  from init_state_inv [OF assms] obtain st where st: "init_state cs = Inr st" "engine_inv st"
    "segments st = [0..<length cs - 1]" "set (queue st) = set (segments st)"
    by blast
  then show "init_state cs = Inr (projr (init_state cs))" "engine_inv (projr (init_state cs))"
    "segments (projr (init_state cs)) = [0..<length cs - 1]"
    "set (queue (projr (init_state cs))) = set (segments (projr (init_state cs)))"
    by simp_all
qed

lemma init_state_copy: "map (\<lambda>(x, y). (x, y)) cs = cs"
  by (induction cs) auto

lemma fold_enqueue_queue:
  "segments (fold (\<lambda>seg st. enqueue st seg) xs st) = segments st
   \<and> heap (fold (\<lambda>seg st. enqueue st seg) xs st) = heap st
   \<and> set (queue (fold (\<lambda>seg st. enqueue st seg) xs st)) = set xs \<union> set (queue st)
   \<and> (distinct (queue st) \<longrightarrow> distinct (queue (fold (\<lambda>seg st. enqueue st seg) xs st)))"
  by (induction xs arbitrary: st) auto


text \<open>The state before the loop, on concrete rings.\<close>

lemma Ring_links_simps:
  "sp (Ring_links cs i) = cs ! i"
  "ep (Ring_links cs i) = cs ! Suc i"
  "prev_seg (Ring_links cs i) =
     (if i < length cs - 1 - 1 then (if i = 0 then length cs - 1 - 1 else i - 1) else length cs - 1 - 2)"
  "next_seg (Ring_links cs i) = (if i < length cs - 1 - 1 then i + 1 else 0)"
  by (simp_all add: Ring_links_def Let_def)

lemma init_state_heap:
  assumes "3 \<le> length cs"
  shows "heap (projr (init_state cs)) = Ring_links cs"
proof -
  from assms have "\<not> length cs - 1 < 2" by simp
  then show ?thesis
    by (simp add: init_state_def init_state_copy Ring_init_def Let_def fold_enqueue_queue)
qed








lemma intersection_None:
  "intersection h a b = None \<longleftrightarrow>
     (fst (sp (h a)) - fst (ep (h a))) * (snd (sp (h b)) - snd (ep (h b)))
       = (snd (sp (h a)) - snd (ep (h a))) * (fst (sp (h b)) - fst (ep (h b)))"
  by (simp add: intersection_def Let_def)

lemma intersection_on_line:
  assumes "intersection h a b = Some q"
  shows "on_line (sp (h a)) (ep (h a)) q" "on_line (sp (h b)) (ep (h b)) q"
proof -
  obtain a1 a2 where a: "sp (h a) = (a1, a2)" by (cases "sp (h a)")
  obtain b1 b2 where b: "ep (h a) = (b1, b2)" by (cases "ep (h a)")
  obtain c1 c2 where c: "sp (h b) = (c1, c2)" by (cases "sp (h b)")
  obtain d1 d2 where d: "ep (h b) = (d1, d2)" by (cases "ep (h b)")
  define t where "t = (a1 - b1) * (c2 - d2) - (a2 - b2) * (c1 - d1)"
  from assms have t: "t \<noteq> 0"
    and q: "q = (((a1 * b2 - a2 * b1) * (c1 - d1) - (a1 - b1) * (c1 * d2 - c2 * d1)) / t,
                 ((a1 * b2 - a2 * b1) * (c2 - d2) - (a2 - b2) * (c1 * d2 - c2 * d1)) / t)"
    by (auto simp: intersection_def Let_def a b c d t_def split: if_splits)
  have "((a1 * b2 - a2 * b1) * (c1 - d1) - (a1 - b1) * (c1 * d2 - c2 * d1) - a1 * t) * (b2 - a2)
      = ((a1 * b2 - a2 * b1) * (c2 - d2) - (a2 - b2) * (c1 * d2 - c2 * d1) - a2 * t) * (b1 - a1)"
    unfolding t_def by algebra
  then have "(((a1 * b2 - a2 * b1) * (c1 - d1) - (a1 - b1) * (c1 * d2 - c2 * d1)) / t - a1) * (b2 - a2)
      = (((a1 * b2 - a2 * b1) * (c2 - d2) - (a2 - b2) * (c1 * d2 - c2 * d1)) / t - a2) * (b1 - a1)"
    using t by (simp add: field_simps)
  then show "on_line (sp (h a)) (ep (h a)) q" by (simp add: on_line_def a b q)
  have "((a1 * b2 - a2 * b1) * (c1 - d1) - (a1 - b1) * (c1 * d2 - c2 * d1) - c1 * t) * (d2 - c2)
      = ((a1 * b2 - a2 * b1) * (c2 - d2) - (a2 - b2) * (c1 * d2 - c2 * d1) - c2 * t) * (d1 - c1)"
    unfolding t_def by algebra
  then have "(((a1 * b2 - a2 * b1) * (c1 - d1) - (a1 - b1) * (c1 * d2 - c2 * d1)) / t - c1) * (d2 - c2)
      = (((a1 * b2 - a2 * b1) * (c2 - d2) - (a2 - b2) * (c1 * d2 - c2 * d1)) / t - c2) * (d1 - c1)"
    using t by (simp add: field_simps)
  then show "on_line (sp (h b)) (ep (h b)) q" by (simp add: on_line_def c d q)
qed

lemma init_state_pop:
  assumes c4: "4 \<le> length cs" and cl: "hd cs = last cs" and k: "k < length cs - 1"
    and m: "\<And>x. x < length cs - 1 \<Longrightarrow> x \<noteq> k \<Longrightarrow>
              seg_length (Ring_links cs) k < seg_length (Ring_links cs) x"
  obtains q where
    "heappop (seg_lt (heap (projr (init_state cs)))) (queue (projr (init_state cs))) = Inr (k, q)"
    "popped ((projr (init_state cs))\<lparr>queue := q\<rparr>) k"
    "queue (projr (init_state cs)) ! 0 = k"
    "loop_cond (projr (init_state cs))"
proof -
  define st where "st = projr (init_state cs)"
  from c4 have c: "3 \<le> length cs" by simp
  note i = init_state_total [OF c cl, folded st_def]
  have h: "heap st = Ring_links cs" unfolding st_def by (rule init_state_heap [OF c])
  from i(3,4) have qs: "set (queue st) = {0..<length cs - 1}" by simp
  with k have "queue st \<noteq> []" by auto
  with i(3) c4 have lc: "loop_cond st" by (simp add: loop_cond_def)
  from heappop_popped [OF i(2) lc] obtain q where
    q: "heappop (seg_lt (heap st)) (queue st) = Inr (queue st ! 0, q)"
      "popped (st\<lparr>queue := q\<rparr>) (queue st ! 0)"
      "set (queue st) = insert (queue st ! 0) (set q)"
      "\<forall>x\<in>set (queue st). seg_length (heap st) (queue st ! 0) \<le> seg_length (heap st) x"
    by metis
  from q(3) qs have e: "queue st ! 0 < length cs - 1" by auto
  from q(4) qs k have "seg_length (Ring_links cs) (queue st ! 0) \<le> seg_length (Ring_links cs) k"
    by (simp add: h)
  with m [OF e] have q0: "queue st ! 0 = k" by fastforce
  show ?thesis
    using q(1,2) q0 lc unfolding st_def by (intro that [of q]) simp_all
qed

lemma first_pop_popped:
  assumes c4: "4 \<le> length cs" and cl: "hd cs = last cs" and k: "k < length cs - 1"
    and m: "\<And>x. x < length cs - 1 \<Longrightarrow> x \<noteq> k \<Longrightarrow>
              seg_length (Ring_links cs) k < seg_length (Ring_links cs) x"
  shows "popped (first_pop cs) k" "heap (first_pop cs) = Ring_links cs"
    "segments (first_pop cs) = [0..<length cs - 1]"
    "loop_cond (projr (init_state cs))"
    "loop_body P (projr (init_state cs)) = dispatch P (first_pop cs) k"
proof -
  from c4 have c: "3 \<le> length cs" by simp
  from init_state_pop [OF c4 cl k m] obtain q where
    q: "heappop (seg_lt (heap (projr (init_state cs)))) (queue (projr (init_state cs))) = Inr (k, q)"
    "popped ((projr (init_state cs))\<lparr>queue := q\<rparr>) k"
    "loop_cond (projr (init_state cs))"
    by metis
  have f: "first_pop cs = (projr (init_state cs))\<lparr>queue := q\<rparr>"
    by (simp add: first_pop_def Let_def q(1))
  show "popped (first_pop cs) k" using q(2) by (simp add: f)
  show "heap (first_pop cs) = Ring_links cs" by (simp add: f init_state_heap [OF c])
  show "segments (first_pop cs) = [0..<length cs - 1]"
    by (simp add: f init_state_total(3) [OF c cl])
  show "loop_cond (projr (init_state cs))" by (rule q(3))
  show "loop_body P (projr (init_state cs)) = dispatch P (first_pop cs) k"
    by (simp add: loop_body_def q(1) f)
qed

lemma sqrt2_bounds: "sqrt 2 < 2" "sqrt 2 < 3" "sqrt 2 < 4" "1 / 2 < sqrt (1 / 2)" "sqrt (1 / 2) \<le> sqrt 2"
proof -
  show "sqrt 2 < 2" by (rule real_less_lsqrt) simp_all
  then show "sqrt 2 < 3" "sqrt 2 < 4" by simp_all
  show "1 / 2 < sqrt (1 / 2)" by (rule real_less_rsqrt) (simp add: power2_eq_square)
  show "sqrt (1 / 2) \<le> sqrt 2" by simp
qed

lemma cut_corner_lengths:
  "seg_length (Ring_links cut_corner) 0 = 3"
  "seg_length (Ring_links cut_corner) 1 = sqrt 2"
  "seg_length (Ring_links cut_corner) 2 = 3"
  "seg_length (Ring_links cut_corner) 3 = 4"
  "seg_length (Ring_links cut_corner) 4 = 4"
  "seg_length (Ring_links cut_corner2) 0 = 2"
  "seg_length (Ring_links cut_corner2) 1 = sqrt 2"
  "seg_length (Ring_links cut_corner2) 2 = 3"
  "seg_length (Ring_links cut_corner2) 3 = 3"
  "seg_length (Ring_links cut_corner2) 4 = 4"
  by (simp_all add: seg_length_def vnorm_def vsub_def Ring_links_simps cut_corner_def cut_corner2_def)

section \<open>The claims\<close>

text \<open>
  Claim C3. In every state of a run seen at the head of the loop the ring invariant
  holds: the segments form a single cycle (following \<^verbatim>\<open>next_seg\<close> from any segment of
  the ring for as many steps as the ring has segments meets every segment exactly once
  and ends at the start) and every segment ends where its successor starts. Each of
  \<^verbatim>\<open>merge\<close>, \<^verbatim>\<open>update\<close> and \<^verbatim>\<open>remove\<close> keeps the invariant, and applied to a segment
  that is not in the ring each leaves the ring as it is. The input is the coordinate
  sequence of a shapely \<^verbatim>\<open>LinearRing\<close>, which is closed: its first and last
  coordinates are equal.
\<close>

theorem closure_invariant:
  "(hd cs = last cs \<and> reachable P cs st \<longrightarrow> ring_inv st)
   \<and> (ring_inv r \<longrightarrow>
        ring_inv (Ring_merge r s) \<and> ring_inv (fst (Ring_update r s p q)) \<and> ring_inv (Ring_remove r s q))
   \<and> (s \<notin> set (segments r) \<longrightarrow>
        Ring_merge r s = r \<and> Ring_update r s p q = (r, None) \<and> Ring_remove r s q = r)
   \<and> (ring_inv r \<and> s \<in> set (segments r) \<longrightarrow>
        distinct (trace (heap r) s (length (segments r)))
        \<and> set (trace (heap r) s (length (segments r))) = set (segments r)
        \<and> ((\<lambda>a. next_seg (heap r a)) ^^ length (segments r)) s = s
        \<and> ep (heap r s) = sp (heap r (next_seg (heap r s)))
        \<and> sp (heap r s) = ep (heap r (prev_seg (heap r s))))"
proof (intro conjI impI)
  assume "hd cs = last cs \<and> reachable P cs st"
  then show "ring_inv st" using reachable_inv [of cs P st] by (simp add: engine_inv_def)
next
  assume "ring_inv r"
  then show "ring_inv (Ring_merge r s)" "ring_inv (fst (Ring_update r s p q))"
    "ring_inv (Ring_remove r s q)"
    by (rule ring_inv_merge ring_inv_update ring_inv_remove)+
next
  assume "s \<notin> set (segments r)"
  then show "Ring_merge r s = r" "Ring_update r s p q = (r, None)" "Ring_remove r s q = r"
    by (simp_all add: Ring_merge_def Ring_update_def Ring_remove_def)
next
  assume a: "ring_inv r \<and> s \<in> set (segments r)"
  then show "distinct (trace (heap r) s (length (segments r)))"
    "set (trace (heap r) s (length (segments r))) = set (segments r)"
    "((\<lambda>a. next_seg (heap r a)) ^^ length (segments r)) s = s"
    using ring_trace [of r s] by simp_all
  from a ring_neighbours(3,4) [of r s]
  show "ep (heap r s) = sp (heap r (next_seg (heap r s)))"
    "sp (heap r s) = ep (heap r (prev_seg (heap r s)))"
    by (simp_all add: link_def)
qed


text \<open>The invariant at work on the unit square, for a segment of the ring and for a stranger.\<close>

theorem closure_invariant_witness:
  "ring_inv (projr (init_state square))
   \<and> ring_inv (Ring_merge (projr (init_state square)) 0)
   \<and> ring_inv (fst (Ring_update (projr (init_state square)) 0 (5, 5) (6, 6)))
   \<and> ring_inv (Ring_remove (projr (init_state square)) 0 (7, 7))
   \<and> Ring_merge (projr (init_state square)) 9 = projr (init_state square)
   \<and> Ring_update (projr (init_state square)) 9 (5, 5) (6, 6) = (projr (init_state square), None)
   \<and> Ring_remove (projr (init_state square)) 9 (7, 7) = projr (init_state square)
   \<and> distinct (trace (heap (projr (init_state square))) 0 (length (segments (projr (init_state square)))))
   \<and> set (trace (heap (projr (init_state square))) 0 (length (segments (projr (init_state square)))))
       = set (segments (projr (init_state square)))
   \<and> ((\<lambda>a. next_seg (heap (projr (init_state square)) a))
         ^^ length (segments (projr (init_state square)))) 0 = 0"
proof -
  let ?st = "projr (init_state square)"
  have c: "hd square = last square" "3 \<le> length square" by (simp_all add: square_def)
  note i = init_state_total [OF c(2,1)]
  have r: "reachable P0 square ?st" for P0 by (rule reachable_init) (rule i(1))
  have s: "segments ?st = [0, 1, 2, 3]" using i(3) by (simp add: square_def upt_conv_Cons)
  have inv: "ring_inv ?st"
    using closure_invariant [of square undefined ?st ?st 0 "(5, 5)" "(6, 6)"] c(1) r by simp
  from closure_invariant [of square undefined ?st ?st 0 "(5, 5)" "(6, 6)"]
    closure_invariant [of square undefined ?st ?st 0 "(5, 5)" "(7, 7)"]
    closure_invariant [of square undefined ?st ?st 9 "(5, 5)" "(6, 6)"]
    closure_invariant [of square undefined ?st ?st 9 "(5, 5)" "(7, 7)"]
    inv s
  show ?thesis by simp
qed


text \<open>
  Claim C5, as amended. For a segment \<open>seg\<close> of a ring that satisfies the ring
  invariant, \<^verbatim>\<open>Ring.merge(seg)\<close> drops the point between \<open>seg\<close> and its successor by
  deleting \<open>seg\<close> itself: the list of segments loses \<open>seg\<close> and nothing else, the
  successor's start point becomes the end point of \<open>seg\<close>'s predecessor, which is the
  old start point of \<open>seg\<close>, no other start point and no end point changes (so the
  successor keeps its end point and \<open>seg\<close> keeps both of its points), the predecessor
  points forward to the successor and the successor back to the predecessor, and the
  ring invariant still holds.
\<close>

theorem merge_deletes_seg:
  assumes "ring_inv r" "s \<in> set (segments r)"
  shows "segments (Ring_merge r s) = remove1 s (segments r)
    \<and> s \<notin> set (segments (Ring_merge r s))
    \<and> sp (heap (Ring_merge r s) (next_seg (heap r s))) = sp (heap r s)
    \<and> (\<forall>x. x \<noteq> next_seg (heap r s) \<longrightarrow> sp (heap (Ring_merge r s) x) = sp (heap r x))
    \<and> (\<forall>x. ep (heap (Ring_merge r s) x) = ep (heap r x))
    \<and> next_seg (heap (Ring_merge r s) (prev_seg (heap r s))) = next_seg (heap r s)
    \<and> prev_seg (heap (Ring_merge r s) (next_seg (heap r s))) = prev_seg (heap r s)
    \<and> ring_inv (Ring_merge r s)"
proof -
  from assms(1) have d: "distinct (segments r)" by (simp add: ring_inv_def)
  note l = ring_neighbours(3) [OF assms, unfolded link_def]
  note p = Ring_merge_proj [OF assms(2)]
  show ?thesis
    using l d assms(2) ring_inv_merge [OF assms(1), of s] by (simp add: p)
qed


text \<open>The amended claim on a triangle, merged at its first segment.\<close>

theorem merge_deletes_seg_witness:
  "segments (Ring_merge (projr (Ring_init [(0::int, 0::int), (1, 0), (0, 1), (0, 0)])) 0)
     = remove1 0 (segments (projr (Ring_init [(0::int, 0::int), (1, 0), (0, 1), (0, 0)])))
   \<and> ring_inv (Ring_merge (projr (Ring_init [(0::int, 0::int), (1, 0), (0, 1), (0, 0)])) 0)"
proof -
  let ?cs = "[(0::int, 0::int), (1, 0), (0, 1), (0, 0)]"
  from Ring_init_inv [of ?cs] obtain r where r: "Ring_init ?cs = Inr r" "ring_inv r"
    "segments r = [0..<length ?cs - 1]"
    by auto
  have "0 \<in> set (segments r)" using r(3) by (simp add: upt_conv_Cons)
  from merge_deletes_seg [OF r(2) this] r(1) show ?thesis by simp
qed


text \<open>
  Claim C5 as the specification states it fails on the same triangle: after
  \<^verbatim>\<open>merge\<close> of segment 0 the successor, segment 1, is still in the ring and segment 0
  is not; the end point of segment 0 is still \<open>(1, 0)\<close>, not the successor's old end
  point \<open>(0, 1)\<close>; it is the successor whose start point has moved.
\<close>

theorem merge_counterexample:
  "segments (projr (Ring_init [(0::int, 0::int), (1, 0), (0, 1), (0, 0)])) = [0, 1, 2]
   \<and> next_seg (heap (projr (Ring_init [(0::int, 0::int), (1, 0), (0, 1), (0, 0)])) 0) = 1
   \<and> ep (heap (projr (Ring_init [(0::int, 0::int), (1, 0), (0, 1), (0, 0)])) 1) = (0, 1)
   \<and> segments (Ring_merge (projr (Ring_init [(0::int, 0::int), (1, 0), (0, 1), (0, 0)])) 0) = [1, 2]
   \<and> ep (heap (Ring_merge (projr (Ring_init [(0::int, 0::int), (1, 0), (0, 1), (0, 0)])) 0) 0) = (1, 0)
   \<and> sp (heap (Ring_merge (projr (Ring_init [(0::int, 0::int), (1, 0), (0, 1), (0, 0)])) 0) 1) = (0, 0)
   \<and> ep (heap (Ring_merge (projr (Ring_init [(0::int, 0::int), (1, 0), (0, 1), (0, 0)])) 0) 1) = (0, 1)"
  by (simp add: Ring_init_def Ring_links_def Ring_merge_def Let_def upt_conv_Cons
      set_sp_def set_next_seg_def set_prev_seg_def)


text \<open>
  Claim C7, as amended. \<^verbatim>\<open>simplify_ring\<close> checks nothing itself. A ring of fewer than
  three coordinates makes the construction of the \<^verbatim>\<open>Ring\<close> raise \<^verbatim>\<open>IndexError\<close>,
  so the call fails before any segment is enqueued; that is the only input on which the
  construction fails. A ring of three or more coordinates is never rejected: the
  \<^verbatim>\<open>Ring\<close> is built from it whatever its coordinates are, since nothing looks at their
  values, and on real coordinates the engine is initialised: the state holds the segments
  of that ring, each of them queued once.
\<close>

theorem short_ring_raises:
  "(Ring_init cs = Inl IndexError \<longleftrightarrow> length cs < 3)
   \<and> (3 \<le> length cs \<longrightarrow>
        Ring_init cs = Inr \<lparr>heap = Ring_links cs, segments = [0..<length cs - 1]\<rparr>)
   \<and> (init_state ps = Inl IndexError \<longleftrightarrow> length ps < 3)
   \<and> (length ps < 3 \<longrightarrow> simplify_ring P fuel ps = Some (Inl IndexError))
   \<and> (3 \<le> length ps \<longrightarrow>
        (\<exists>st. init_state ps = Inr st
           \<and> heap st = Ring_links ps
           \<and> segments st = [0..<length ps - 1]
           \<and> distinct (queue st)
           \<and> set (queue st) = set (segments st)))"
proof -
  have a: "Ring_init cs = Inl IndexError \<longleftrightarrow> length cs < 3" for cs :: "'c list"
    by (auto simp: Ring_init_def Let_def)
  have b: "init_state ps = Inl IndexError \<longleftrightarrow> length ps < 3"
    using a [of ps] by (auto simp: init_state_def init_state_copy split: sum.splits)
  have c: "3 \<le> length cs \<longrightarrow>
        Ring_init cs = Inr \<lparr>heap = Ring_links cs, segments = [0..<length cs - 1]\<rparr>"
    for cs :: "'c list"
    by (auto simp: Ring_init_def Let_def)
  have d: "length ps < 3 \<longrightarrow> simplify_ring P fuel ps = Some (Inl IndexError)"
    using b by (auto simp: simplify_ring_def)
  have e: "3 \<le> length ps \<longrightarrow>
        (\<exists>st. init_state ps = Inr st
           \<and> heap st = Ring_links ps
           \<and> segments st = [0..<length ps - 1]
           \<and> distinct (queue st)
           \<and> set (queue st) = set (segments st))"
    using c [of ps] by (simp add: init_state_def init_state_copy fold_enqueue_queue)
  from a [of cs] b c [of cs] d e show ?thesis by blast
qed


text \<open>
  The amended claim on a ring of two coordinates, on a ring with non-finite coordinates and
  on an open ring with a repeated point.
\<close>

theorem short_ring_raises_witness:
  "Ring_init [(0::int, 0::int), (1, 1)] = Inl IndexError
   \<and> init_state [(0, 0), (1, 1)] = Inl IndexError
   \<and> simplify_ring default_params 10 [(0, 0), (1, 1)] = Some (Inl IndexError)
   \<and> Ring_init [(NaN, PosInf), (Finite 0, Finite 0), (Finite 1, NegInf), (NaN, PosInf)]
     = Inr \<lparr>heap = Ring_links [(NaN, PosInf), (Finite 0, Finite 0), (Finite 1, NegInf), (NaN, PosInf)],
            segments = [0, 1, 2]\<rparr>
   \<and> (\<exists>st. init_state [(0, 0), (0, 0), (5, 1)] = Inr st
          \<and> segments st = [0, 1] \<and> set (queue st) = {0, 1})"
  using short_ring_raises [of "[(0::int, 0::int), (1, 1)]" "[(0, 0), (1, 1)]" default_params 10]
    short_ring_raises [of "[(NaN, PosInf), (Finite 0, Finite 0), (Finite 1, NegInf), (NaN, PosInf)]"
      "[(0, 0), (0, 0), (5, 1)]" default_params 10]
  by (auto simp: upt_conv_Cons)


text \<open>
  Claim C7 as the specification states it fails: a ring with infinite and NaN
  coordinates is not rejected, the \<^verbatim>\<open>Ring\<close> is built from it.
\<close>

theorem non_finite_ring_accepted:
  "Ring_init [(NaN, PosInf), (Finite 0, Finite 0), (Finite 1, NegInf), (NaN, PosInf)]
     = Inr \<lparr>heap = Ring_links [(NaN, PosInf), (Finite 0, Finite 0), (Finite 1, NegInf), (NaN, PosInf)],
            segments = [0, 1, 2]\<rparr>"
  by (simp add: Ring_init_def upt_conv_Cons)











end
